theory Spec2Isabelle
  imports Main "HOL-Library.Word"
begin

unbundle bit_operations_syntax

section \<open>Machine types\<close>

text \<open>
  \<open>unsigned char\<close> is an 8-bit word and \<open>uint32_t\<close> a 32-bit word. The C \<open>int\<close>
  variables of the codec (\<open>lastCh\<close>, \<open>cnt\<close>, the value returned by the pull callback) only
  ever hold values between \<open>-256\<close> and \<open>255\<close>, so they are unbounded integers here.
\<close>

type_synonym byte = "8 word"
type_synonym u32 = "32 word"

section \<open>The run-length encoder (\<open>rle_encode\<close>)\<close>

text \<open>
  The input buffer \<open>(data, dataLen)\<close> is the list of the \<open>dataLen\<close> bytes at \<open>data\<close>;
  \<open>data++; dataLen--\<close> drops the head of the list. The push callback threads its
  \<open>cbdata\<close> (and whatever device the callback drives) as a state of type \<open>'s\<close>.

  The inner loop \<open>while (dataLen && lastCh==*data && cnt<255)\<close> returns what is left of
  the input and the count.
\<close>

fun rle_encode_scan :: "int \<Rightarrow> byte list \<Rightarrow> int \<Rightarrow> byte list \<times> int" where
  "rle_encode_scan lastCh [] cnt = ([], cnt)"
| "rle_encode_scan lastCh (x # xs) cnt =
     (if lastCh = uint x \<and> cnt < 255 then rle_encode_scan lastCh xs (cnt + 1)
      else (x # xs, cnt))"

lemma rle_encode_scan_length:
  "length (fst (rle_encode_scan lastCh xs cnt)) \<le> length xs"
  by (induction xs arbitrary: cnt) (auto simp: le_SucI)

function rle_encode_loop ::
  "int \<Rightarrow> byte list \<Rightarrow> (byte \<Rightarrow> 's \<Rightarrow> 's) \<Rightarrow> 's \<Rightarrow> 's" where
  "rle_encode_loop lastCh [] callback cbdata = cbdata"
| "rle_encode_loop lastCh (ch # data) callback cbdata =
     (let cbdata1 = callback ch cbdata in
      if uint ch = lastCh then
        rle_encode_loop (uint ch) (fst (rle_encode_scan lastCh data 0)) callback
          (callback (word_of_int (snd (rle_encode_scan lastCh data 0))) cbdata1)
      else rle_encode_loop (uint ch) data callback cbdata1)"
  by pat_completeness auto
termination
proof (relation "measure (\<lambda>(lastCh, data, callback, cbdata). length data)")
  show "wf (measure (\<lambda>(lastCh :: int, data :: byte list, callback :: byte \<Rightarrow> 's \<Rightarrow> 's,
                        cbdata :: 's). length data))"
    by simp
next
  fix lastCh :: int and ch :: byte and data :: "byte list"
    and callback :: "byte \<Rightarrow> 's \<Rightarrow> 's" and cbdata x :: 's
  have "length (fst (rle_encode_scan lastCh data 0)) < Suc (length data)"
    using rle_encode_scan_length [of lastCh data 0] by simp
  then show "((uint ch, fst (rle_encode_scan lastCh data 0), callback,
                callback (word_of_int (snd (rle_encode_scan lastCh data 0))) x),
               lastCh, ch # data, callback, cbdata)
             \<in> measure (\<lambda>(lastCh, data, callback, cbdata). length data)"
    by simp
next
  fix lastCh :: int and ch :: byte and data :: "byte list"
    and callback :: "byte \<Rightarrow> 's \<Rightarrow> 's" and cbdata x :: 's
  show "((uint ch, data, callback, x), lastCh, ch # data, callback, cbdata)
          \<in> measure (\<lambda>(lastCh, data, callback, cbdata). length data)"
    by simp
qed

definition rle_encode :: "byte list \<Rightarrow> (byte \<Rightarrow> 's \<Rightarrow> 's) \<Rightarrow> 's \<Rightarrow> 's" where
  "rle_encode data callback cbdata = rle_encode_loop (- 1) data callback cbdata"

section \<open>The run-length decoder (\<open>rle_decode\<close>)\<close>

text \<open>
  The destination is RAM, a function from addresses to bytes, together with the moving
  pointer \<open>data\<close>; \<open>*(data++) = v\<close> stores one byte and advances the pointer. The decoder
  takes no length: nothing in it bounds the pointer.
\<close>

type_synonym dest = "(nat \<Rightarrow> byte) \<times> nat"

definition store_inc :: "byte \<Rightarrow> dest \<Rightarrow> dest" where
  "store_inc v d = ((fst d)(snd d := v), snd d + 1)"

text \<open>The inner loop \<open>while (cnt-->0) *(data++) = (unsigned char)ch\<close>.\<close>

function rle_decode_fill :: "int \<Rightarrow> byte \<Rightarrow> dest \<Rightarrow> dest" where
  "rle_decode_fill cnt ch d =
     (if cnt > 0 then rle_decode_fill (cnt - 1) ch (store_inc ch d) else d)"
  by pat_completeness auto
termination
  by (relation "measure (\<lambda>(cnt, ch, d). nat cnt)") auto

text \<open>
  The outer loop is \<open>while (true)\<close>: it ends only when the pull callback returns a negative
  value, so the model is a partial function and \<open>None\<close> stands for a decoder that never
  returns.
\<close>

partial_function (option) rle_decode_loop ::
  "('s \<Rightarrow> int \<times> 's) \<Rightarrow> int \<Rightarrow> 's \<Rightarrow> dest \<Rightarrow> ('s \<times> dest) option" where
  "rle_decode_loop callback lastCh cbdata d =
     (case callback cbdata of (ch, cbdata1) \<Rightarrow>
        if ch < 0 then Some (cbdata1, d)
        else
          let d1 = store_inc (word_of_int ch) d in
          if ch = lastCh then
            (case callback cbdata1 of (cnt, cbdata2) \<Rightarrow>
               rle_decode_loop callback ch cbdata2 (rle_decode_fill cnt (word_of_int ch) d1))
          else rle_decode_loop callback ch cbdata1 d1)"

declare rle_decode_loop.simps [code]

definition rle_decode :: "('s \<Rightarrow> int \<times> 's) \<Rightarrow> 's \<Rightarrow> dest \<Rightarrow> ('s \<times> dest) option" where
  "rle_decode callback cbdata d = rle_decode_loop callback (- 256) cbdata d"

section \<open>The file backend callbacks (\<open>LINUX\<close>)\<close>

text \<open>
  With \<open>LINUX\<close> defined \<open>cbdata\<close> is a \<open>FILE*\<close>. A file open for writing is the list of bytes
  written so far (\<open>fwrite\<close> of one byte appends); a file open for reading is the list of
  bytes not yet read (\<open>fread\<close> of one byte takes the head, and fails at end of file).
\<close>

definition jsfSaveToFlash_writecb_linux :: "byte \<Rightarrow> byte list \<Rightarrow> byte list" where
  "jsfSaveToFlash_writecb_linux ch f = f @ [ch]"

definition jsfLoadFromFlash_readcb_linux :: "byte list \<Rightarrow> int \<times> byte list" where
  "jsfLoadFromFlash_readcb_linux f =
     (case f of [] \<Rightarrow> (- 1, []) | ch # rest \<Rightarrow> (uint ch, rest))"

text \<open>
  The byte stream a run of the encoder emits is what the file backend's push callback
  collects, starting from an empty file.
\<close>

definition rle_stream :: "int \<Rightarrow> byte list \<Rightarrow> byte list" where
  "rle_stream l data = rle_encode_loop l data jsfSaveToFlash_writecb_linux []"

section \<open>The flash device\<close>

text \<open>
  Modelled from the spec: the flash controller (\<open>jshFlashGetPage\<close>, \<open>jshFlashErasePage\<close>,
  \<open>jshFlashWrite\<close>, \<open>jshFlashRead\<close>, declared in \<open>jshardware.h\<close>) and the board constants
  \<open>FLASH_SAVED_CODE_START\<close>, \<open>FLASH_MAGIC_LOCATION\<close> and \<open>FLASH_MAGIC\<close> are not part of
  the sources at hand. The constants and the page table are parameters. The device is its
  byte cells together with the history of the erase and write requests it has received,
  oldest first. An erase leaves every byte of the page at the erased value \<open>0xFF\<close>; a write
  of a word programs its four bytes, least significant first, and can only turn bits
  from 1 to 0; a read returns the cells.
\<close>

record board =
  FLASH_SAVED_CODE_START :: u32
  FLASH_MAGIC_LOCATION :: u32
  FLASH_MAGIC :: u32
  jshFlashGetPage :: "u32 \<Rightarrow> (u32 \<times> u32) option"

datatype flash_op = FlashErase u32 | FlashWrite u32 u32

record flash =
  cells :: "u32 \<Rightarrow> byte"
  ops :: "flash_op list"

definition erased_flash :: flash where
  "erased_flash = \<lparr>cells = (\<lambda>a. 0xFF), ops = []\<rparr>"

text \<open>
  Modelled from the spec: \<open>jshFlashWrite(&word, addr, 4)\<close>, the controller's word write.
  Byte \<open>k\<close> of the word goes to the cell \<open>addr + k\<close> (the target is little-endian), and
  a cell keeps only the bits that were 1 before and are 1 in the new byte ("you may only
  turn bits that are 1 into bits that are 0", as the documentation of \<open>Flash.write\<close> in
  this file puts it).
\<close>

definition word_byte :: "u32 \<Rightarrow> nat \<Rightarrow> byte" where
  "word_byte w k = ucast (drop_bit (8 * k) w)"

definition jshFlashWrite :: "u32 \<Rightarrow> u32 \<Rightarrow> flash \<Rightarrow> flash" where
  "jshFlashWrite w addr fl =
     \<lparr>cells = (\<lambda>a. if unat (a - addr) < 4
                     then cells fl a AND word_byte w (unat (a - addr)) else cells fl a),
      ops = ops fl @ [FlashWrite addr w]\<rparr>"

text \<open>
  Modelled from the spec: \<open>jshFlashErasePage(addr)\<close> sets every cell of the page that
  contains \<open>addr\<close> to \<open>0xFF\<close>; where the page table knows no such page nothing happens.
\<close>

definition jshFlashErasePage :: "board \<Rightarrow> u32 \<Rightarrow> flash \<Rightarrow> flash" where
  "jshFlashErasePage b addr fl =
     (case jshFlashGetPage b addr of
        None \<Rightarrow> fl
      | Some (pageStart, pageLength) \<Rightarrow>
          \<lparr>cells = (\<lambda>a. if unat (a - pageStart) < unat pageLength then 0xFF else cells fl a),
           ops = ops fl @ [FlashErase addr]\<rparr>)"

text \<open>
  Modelled from the spec: \<open>jshFlashRead(&x, addr, n)\<close> copies \<open>n\<close> cells from \<open>addr\<close>; the
  code reads one byte at a time, or a 4-byte integer (assembled least significant byte
  first).
\<close>

definition jshFlashRead8 :: "flash \<Rightarrow> u32 \<Rightarrow> byte" where
  "jshFlashRead8 fl addr = cells fl addr"

definition jshFlashRead32 :: "flash \<Rightarrow> u32 \<Rightarrow> u32" where
  "jshFlashRead32 fl addr =
     ucast (cells fl addr) OR push_bit 8 (ucast (cells fl (addr + 1)))
       OR push_bit 16 (ucast (cells fl (addr + 2))) OR push_bit 24 (ucast (cells fl (addr + 3)))"

section \<open>The flash backend callbacks\<close>

text \<open>
  \<open>cbdata = uint32_t[end_address, address, data]\<close> for the write callback,
  \<open>uint32_t[address, errorcount]\<close> for the check callback and
  \<open>uint32_t[end_address, address]\<close> for the read callback: each array is a record of its
  named slots. The callbacks reach the device through the controller, so the state a
  callback threads is its \<open>cbdata\<close> and the device. The dot printed on the console every
  1024 bytes is not modelled.
\<close>

record writecb_data =
  wr_end_address :: u32
  wr_address :: u32
  wr_data :: u32

record checkcb_data =
  ck_address :: u32
  ck_errorcount :: u32

record readcb_data =
  rd_end_address :: u32
  rd_address :: u32

definition jsfSaveToFlash_writecb ::
  "byte \<Rightarrow> writecb_data \<times> flash \<Rightarrow> writecb_data \<times> flash" where
  "jsfSaveToFlash_writecb ch s =
     (let cbdata = fst s; fl = snd s;
          s1 = (if wr_address cbdata < wr_end_address cbdata then
                  let cbdata1 = cbdata\<lparr>wr_data :=
                                  push_bit 24 (ucast ch) OR drop_bit 8 (wr_data cbdata)\<rparr>
                  in if wr_address cbdata1 AND 3 = 3
                     then (cbdata1,
                           jshFlashWrite (wr_data cbdata1) (wr_address cbdata1 AND NOT 3) fl)
                     else (cbdata1, fl)
                else (cbdata, fl))
      in ((fst s1)\<lparr>wr_address := wr_address (fst s1) + 1\<rparr>, snd s1))"

definition jsfSaveToFlash_checkcb ::
  "byte \<Rightarrow> checkcb_data \<times> flash \<Rightarrow> checkcb_data \<times> flash" where
  "jsfSaveToFlash_checkcb ch s =
     (let cbdata = fst s; fl = snd s;
          data = jshFlashRead8 fl (ck_address cbdata);
          cbdata1 = cbdata\<lparr>ck_address := ck_address cbdata + 1\<rparr>
      in (if data \<noteq> ch then cbdata1\<lparr>ck_errorcount := ck_errorcount cbdata1 + 1\<rparr>
          else cbdata1, fl))"

definition jsfLoadFromFlash_readcb :: "flash \<Rightarrow> readcb_data \<Rightarrow> int \<times> readcb_data" where
  "jsfLoadFromFlash_readcb fl cbdata =
     (if rd_address cbdata \<ge> rd_end_address cbdata then (- 1, cbdata)
      else (uint (jshFlashRead8 fl (rd_address cbdata)),
            cbdata\<lparr>rd_address := rd_address cbdata + 1\<rparr>))"

section \<open>Presence check, save and load\<close>

definition jsfFlashContainsCode :: "board \<Rightarrow> flash \<Rightarrow> bool" where
  "jsfFlashContainsCode b fl \<longleftrightarrow> jshFlashRead32 fl (FLASH_MAGIC_LOCATION b) = FLASH_MAGIC b"

text \<open>
  The erase loop \<open>while (pageStart+pageLength < FLASH_MAGIC_LOCATION)\<close> follows the page
  table, which the controller supplies: with a page of length 0 it does not end, so it is
  a partial function.
\<close>

partial_function (option) jsfSaveToFlash_erase_loop ::
  "board \<Rightarrow> u32 \<Rightarrow> u32 \<Rightarrow> flash \<Rightarrow> flash option" where
  "jsfSaveToFlash_erase_loop b pageStart pageLength fl =
     (if pageStart + pageLength < FLASH_MAGIC_LOCATION b then
        (case jshFlashGetPage b (pageStart + pageLength) of
           None \<Rightarrow> Some fl
         | Some (pageStart', pageLength') \<Rightarrow>
             jsfSaveToFlash_erase_loop b pageStart' pageLength'
               (jshFlashErasePage b pageStart' fl))
      else Some fl)"

declare jsfSaveToFlash_erase_loop.simps [code]

definition jsfSaveToFlash_erase :: "board \<Rightarrow> flash \<Rightarrow> flash option" where
  "jsfSaveToFlash_erase b fl =
     (case jshFlashGetPage b (FLASH_SAVED_CODE_START b) of
        None \<Rightarrow> Some fl
      | Some (pageStart, pageLength) \<Rightarrow>
          jsfSaveToFlash_erase_loop b pageStart pageLength (jshFlashErasePage b pageStart fl))"

text \<open>
  The rest of \<open>jsfSaveToFlash\<close> (the flash branch, from \<open>uint32_t cbData[3]\<close> on) is
  \<open>jsfSaveToFlash_write\<close>: encode the heap through the write callback, flush with three
  zero bytes, then either report the overflow or write header and marker and run the
  check pass. The heap is the list of the \<open>dataSize\<close> bytes at \<open>basePtr\<close>. Of the console
  output only the final message is kept, as the value returned: the overflow message
  with the bytes needed and the bytes available, or the sizes before and after
  compression with the number of errors the check found.
\<close>

datatype save_report = TooBig u32 u32 | Compressed u32 u32 u32

definition jsfSaveToFlash_write :: "board \<Rightarrow> byte list \<Rightarrow> flash \<Rightarrow> save_report \<times> flash" where
  "jsfSaveToFlash_write b heap fl =
     (let dataSize = (of_nat (length heap) :: u32);
          rleStart = FLASH_SAVED_CODE_START b + 4;
          cbData = \<lparr>wr_end_address = FLASH_MAGIC_LOCATION b, wr_address = rleStart,
                    wr_data = 0\<rparr>;
          s1 = rle_encode heap jsfSaveToFlash_writecb (cbData, fl);
          endOfData = wr_address (fst s1);
          writtenBytes = endOfData - FLASH_SAVED_CODE_START b;
          s2 = jsfSaveToFlash_writecb 0 (jsfSaveToFlash_writecb 0 (jsfSaveToFlash_writecb 0 s1))
      in if wr_address (fst s2) \<ge> wr_end_address (fst s2) then
           (TooBig writtenBytes (FLASH_MAGIC_LOCATION b - FLASH_SAVED_CODE_START b), snd s2)
         else
           let fl3 = jshFlashWrite endOfData (FLASH_SAVED_CODE_START b) (snd s2);
               fl4 = jshFlashWrite (FLASH_MAGIC b) (FLASH_MAGIC_LOCATION b) fl3;
               s5 = rle_encode heap jsfSaveToFlash_checkcb
                      (\<lparr>ck_address = rleStart, ck_errorcount = 0\<rparr>, fl4);
               errors = ck_errorcount (fst s5)
                        + (if \<not> jsfFlashContainsCode b (snd s5) then 1 else 0)
           in (Compressed dataSize writtenBytes errors, snd s5))"

definition jsfSaveToFlash :: "board \<Rightarrow> byte list \<Rightarrow> flash \<Rightarrow> (save_report \<times> flash) option" where
  "jsfSaveToFlash b heap fl =
     (case jsfSaveToFlash_erase b fl of
        None \<Rightarrow> None
      | Some fl1 \<Rightarrow> Some (jsfSaveToFlash_write b heap fl1))"

text \<open>
  \<open>jsfLoadFromFlash\<close> (the flash branch) decodes straight into RAM at \<open>basePtr\<close>. What it
  prints is returned: "No code in flash!" or "Loading \<open>n\<close> bytes from flash...".
\<close>

datatype load_report = NoCodeInFlash | Loading u32

definition jsfLoadFromFlash :: "board \<Rightarrow> flash \<Rightarrow> dest \<Rightarrow> (load_report \<times> dest) option" where
  "jsfLoadFromFlash b fl basePtr =
     (if \<not> jsfFlashContainsCode b fl then Some (NoCodeInFlash, basePtr)
      else
        let cbData = \<lparr>rd_end_address = jshFlashRead32 fl (FLASH_SAVED_CODE_START b),
                      rd_address = FLASH_SAVED_CODE_START b + 4\<rparr>
        in case rle_decode (jsfLoadFromFlash_readcb fl) cbData basePtr of
             None \<Rightarrow> None
           | Some (cbData', d) \<Rightarrow>
               Some (Loading (rd_end_address cbData - FLASH_SAVED_CODE_START b), d))"

section \<open>Properties to state\<close>

text \<open>
  A request in the device's history is a write that stays below the address \<open>e\<close> when
  it is a write whose four bytes \<open>a, \<dots>, a + 3\<close> all lie below \<open>e\<close>.
\<close>

definition write_below :: "u32 \<Rightarrow> flash_op \<Rightarrow> bool" where
  "write_below e op = (case op of FlashWrite a w \<Rightarrow> unat a + 3 < unat e | FlashErase a \<Rightarrow> False)"

text \<open>
  The erase loop of the save ends when every page the controller reports lies ahead of
  the address it was asked about and ends inside the 32-bit address space.
\<close>

definition pages_ok :: "board \<Rightarrow> bool" where
  "pages_ok b \<longleftrightarrow>
     (\<forall>a pageStart pageLength. jshFlashGetPage b a = Some (pageStart, pageLength) \<longrightarrow>
        unat a < unat pageStart + unat pageLength
        \<and> unat pageStart + unat pageLength < 2 ^ 32)"

section \<open>A small board for examples\<close>

text \<open>
  A board with 1 KB pages below \<open>0x2000\<close>, the snapshot region at \<open>0x1000\<close> and the
  marker at \<open>0x1010\<close>: the region holds the 4-byte header and 12 bytes of payload.
  \<open>example_snapshot_flash\<close> holds the stream \<open>07 07 03 09\<close>, the header \<open>0x1008\<close> and
  the marker; \<open>example_corrupt_flash\<close> holds the stream \<open>07 07 FF\<close>, the header
  \<open>0x1007\<close> and the marker.
\<close>

definition example_board :: board where
  "example_board =
     \<lparr>FLASH_SAVED_CODE_START = 0x1000, FLASH_MAGIC_LOCATION = 0x1010,
      FLASH_MAGIC = 0xDEADBEEF,
      jshFlashGetPage = (\<lambda>a. if a < 0x2000 then Some (a AND NOT 0x3FF, 0x400) else None)\<rparr>"

definition zero_ram :: "nat \<Rightarrow> byte" where
  "zero_ram a = 0"

definition example_snapshot_flash :: flash where
  "example_snapshot_flash =
     jshFlashWrite 0xDEADBEEF 0x1010 (jshFlashWrite 0x1008 0x1000
       (jshFlashWrite 0x09030707 0x1004 erased_flash))"

definition example_corrupt_flash :: flash where
  "example_corrupt_flash =
     jshFlashWrite 0xDEADBEEF 0x1010 (jshFlashWrite 0x1007 0x1000
       (jshFlashWrite 0xFFFF0707 0x1004 erased_flash))"

section \<open>The encoder as a stream of pushes\<close>

lemma rle_encode_loop_acc:
  "rle_encode_loop l data jsfSaveToFlash_writecb_linux f
     = f @ rle_encode_loop l data jsfSaveToFlash_writecb_linux []"
proof (induction "length data" arbitrary: l data f rule: less_induct)
  case less
  show ?case
  proof (cases data)
    case Nil
    then show ?thesis by simp
  next
    case (Cons ch rest)
    let ?r = "fst (rle_encode_scan l rest 0)"
    have len: "length ?r < length data"
      using rle_encode_scan_length [of l rest 0] Cons by simp
    have rest: "length rest < length data" using Cons by simp
    show ?thesis
    proof (cases "uint ch = l")
      case True
      then show ?thesis
        using less [OF len, of "uint ch" "f @ [ch, word_of_int (snd (rle_encode_scan l rest 0))]"]
          less [OF len, of "uint ch" "[ch, word_of_int (snd (rle_encode_scan l rest 0))]"] Cons
        by (simp add: jsfSaveToFlash_writecb_linux_def Let_def)
    next
      case False
      then show ?thesis
        using less [OF rest, of "uint ch" "f @ [ch]"] less [OF rest, of "uint ch" "[ch]"] Cons
        by (simp add: jsfSaveToFlash_writecb_linux_def Let_def)
    qed
  qed
qed

lemma rle_stream_Nil: "rle_stream l [] = []"
  by (simp add: rle_stream_def)

lemma rle_stream_Cons:
  "rle_stream l (ch # data) =
     (if uint ch = l
      then ch # word_of_int (snd (rle_encode_scan l data 0))
             # rle_stream (uint ch) (fst (rle_encode_scan l data 0))
      else ch # rle_stream (uint ch) data)"
  using rle_encode_loop_acc [of "uint ch" "fst (rle_encode_scan l data 0)"
          "[ch, word_of_int (snd (rle_encode_scan l data 0))]"]
    rle_encode_loop_acc [of "uint ch" data "[ch]"]
  by (cases "uint ch = l") (simp_all add: rle_stream_def jsfSaveToFlash_writecb_linux_def Let_def)

lemma rle_encode_loop_fold:
  "rle_encode_loop l data callback cbdata = fold callback (rle_stream l data) cbdata"
proof (induction "length data" arbitrary: l data cbdata rule: less_induct)
  case less
  show ?case
  proof (cases data)
    case Nil
    then show ?thesis by (simp add: rle_stream_Nil)
  next
    case (Cons ch rest)
    have len: "length (fst (rle_encode_scan l rest 0)) < length data"
      using rle_encode_scan_length [of l rest 0] Cons by simp
    have rest: "length rest < length data" using Cons by simp
    show ?thesis
      using less [OF len] less [OF rest] Cons
      by (simp add: rle_stream_Cons Let_def)
  qed
qed

lemma rle_encode_scan_spec:
  "0 \<le> c \<Longrightarrow> c \<le> 255 \<Longrightarrow>
   c \<le> snd (rle_encode_scan (uint b) xs c) \<and> snd (rle_encode_scan (uint b) xs c) \<le> 255 \<and>
   replicate (nat (snd (rle_encode_scan (uint b) xs c) - c)) b
          @ fst (rle_encode_scan (uint b) xs c) = xs"
proof (induction xs arbitrary: c)
  case Nil
  then show ?case by simp
next
  case (Cons x xs)
  show ?case
  proof (cases "x = b \<and> c < 255")
    case True
    have c1: "0 \<le> c + 1" "c + 1 \<le> 255" using Cons.prems True by simp_all
    note ih = Cons.IH [OF c1]
    let ?c' = "snd (rle_encode_scan (uint b) xs (c + 1))"
    have step: "rle_encode_scan (uint b) (x # xs) c = rle_encode_scan (uint b) xs (c + 1)"
      using True by simp
    have ge: "c + 1 \<le> ?c'" using ih by simp
    have n: "nat (?c' - c) = Suc (nat (?c' - (c + 1)))" using ge by linarith
    have "replicate (nat (?c' - c)) b @ fst (rle_encode_scan (uint b) xs (c + 1)) = b # xs"
      unfolding n using ih by simp
    then show ?thesis unfolding step using ih ge True by simp
  next
    case False
    then have "rle_encode_scan (uint b) (x # xs) c = (x # xs, c)"
      by (auto simp: word_uint_eq_iff)
    then show ?thesis using Cons.prems by simp
  qed
qed

section \<open>Decoding an encoded stream\<close>

declare rle_decode_fill.simps [simp del]

lemma rle_decode_fill_fold:
  "rle_decode_fill cnt ch d = fold store_inc (replicate (nat cnt) ch) d"
proof (induction cnt ch d rule: rle_decode_fill.induct)
  case (1 cnt ch d)
  show ?case
  proof (cases "cnt > 0")
    case True
    then have "nat cnt = Suc (nat (cnt - 1))" by linarith
    then show ?thesis using 1 True by (subst rle_decode_fill.simps) simp
  next
    case False
    then show ?thesis by (subst rle_decode_fill.simps) simp
  qed
qed

lemma rle_decode_loop_stream:
  "(\<forall>b :: byte. (uint b = lE) = (uint b = lD)) \<Longrightarrow>
   rle_decode_loop jsfLoadFromFlash_readcb_linux lD (rle_stream lE data) d
     = Some ([], fold store_inc data d)"
proof (induction "length data" arbitrary: lE lD data d rule: less_induct)
  case less
  show ?case
  proof (cases data)
    case Nil
    then show ?thesis
      by (subst rle_decode_loop.simps)
         (simp add: rle_stream_Nil jsfLoadFromFlash_readcb_linux_def)
  next
    case (Cons ch rest)
    let ?cnt = "snd (rle_encode_scan lE rest 0)"
    let ?rest' = "fst (rle_encode_scan lE rest 0)"
    have same: "\<forall>b :: byte. (uint b = uint ch) = (uint b = uint ch)" by simp
    have nonneg: "\<not> uint ch < 0" by simp
    have wch: "(word_of_int (uint ch) :: byte) = ch" by simp
    show ?thesis
    proof (cases "uint ch = lE")
      case True
      then have lD: "lD = uint ch" using less.prems by simp
      have lE: "lE = uint ch" using True by simp
      have spec: "0 \<le> ?cnt" "?cnt \<le> 255" "replicate (nat ?cnt) ch @ ?rest' = rest"
        using rle_encode_scan_spec [of 0 ch rest] True by simp_all
      have cnt: "uint (word_of_int ?cnt :: byte) = ?cnt"
        using spec(1,2) by (simp add: uint_word_of_int)
      have len: "length ?rest' < length data"
        using rle_encode_scan_length [of lE rest 0] Cons by simp
      have str: "rle_stream lE data
                   = ch # word_of_int ?cnt # rle_stream (uint ch) ?rest'"
        using Cons by (simp add: rle_stream_Cons lE)
      have "rle_decode_loop jsfLoadFromFlash_readcb_linux lD (rle_stream lE data) d
              = rle_decode_loop jsfLoadFromFlash_readcb_linux (uint ch)
                  (rle_stream (uint ch) ?rest')
                  (rle_decode_fill ?cnt ch (store_inc ch d))"
        unfolding str
        by (subst rle_decode_loop.simps)
           (simp add: jsfLoadFromFlash_readcb_linux_def lD cnt Let_def)
      also have "\<dots> = Some ([], fold store_inc ?rest' (rle_decode_fill ?cnt ch (store_inc ch d)))"
        by (rule less.hyps [OF len same])
      also have "fold store_inc ?rest' (rle_decode_fill ?cnt ch (store_inc ch d))
                   = fold store_inc (ch # replicate (nat ?cnt) ch @ ?rest') d"
        by (simp add: rle_decode_fill_fold)
      finally show ?thesis using spec(3) Cons by simp
    next
      case False
      then have lD: "uint ch \<noteq> lD" using less.prems by simp
      have len: "length rest < length data" using Cons by simp
      have str: "rle_stream lE data = ch # rle_stream (uint ch) rest"
        using False Cons by (simp add: rle_stream_Cons)
      have "rle_decode_loop jsfLoadFromFlash_readcb_linux lD (rle_stream lE data) d
              = rle_decode_loop jsfLoadFromFlash_readcb_linux (uint ch)
                  (rle_stream (uint ch) rest) (store_inc ch d)"
        unfolding str
        by (subst rle_decode_loop.simps)
           (simp add: jsfLoadFromFlash_readcb_linux_def lD Let_def)
      also have "\<dots> = Some ([], fold store_inc rest (store_inc ch d))"
        by (rule less.hyps [OF len same])
      finally show ?thesis using Cons by simp
    qed
  qed
qed

lemma fold_store_inc_snd: "snd (fold store_inc S d) = snd d + length S"
  by (induction S arbitrary: d) (simp_all add: store_inc_def)

lemma fold_store_inc_frame:
  "a < snd d \<or> snd d + length S \<le> a \<Longrightarrow> fst (fold store_inc S d) a = fst d a"
  by (induction S arbitrary: d) (auto simp: store_inc_def)

lemma fold_store_inc_nth:
  "i < length S \<Longrightarrow> fst (fold store_inc S d) (snd d + i) = S ! i"
proof (induction S arbitrary: d i)
  case Nil
  then show ?case by simp
next
  case (Cons x S)
  show ?case
  proof (cases i)
    case 0
    have "fst (fold store_inc S (store_inc x d)) (snd d) = fst (store_inc x d) (snd d)"
      by (rule fold_store_inc_frame) (simp add: store_inc_def)
    moreover have "fst (store_inc x d) (snd d) = x" by (simp add: store_inc_def)
    ultimately show ?thesis using 0 by simp
  next
    case (Suc j)
    have "fst (fold store_inc S (store_inc x d)) (snd (store_inc x d) + j) = S ! j"
      by (rule Cons.IH) (use Cons.prems Suc in simp)
    moreover have "snd (store_inc x d) + j = snd d + i"
      using Suc by (simp add: store_inc_def)
    ultimately show ?thesis using Suc by simp
  qed
qed

lemma fold_store_inc_map:
  "map (fst (fold store_inc S (m, p))) [p ..< p + length S] = S"
  by (rule nth_equalityI) (simp_all add: fold_store_inc_nth [of _ S "(m, p)", simplified])

section \<open>Round trip\<close>

text \<open>
  Claim C1. For every byte sequence \<open>S\<close>, the empty one included, \<open>rle_encode\<close> of \<open>S\<close>
  followed by \<open>rle_decode\<close> of the emitted stream (the pull callback hands out the emitted
  bytes in order and then \<open>-1\<close>) returns, has consumed the whole stream, and has stored
  exactly \<open>S\<close> at the destination: the \<open>length S\<close> bytes from the start pointer are
  \<open>S\<close>, the pointer has advanced by \<open>length S\<close>, and no other address has changed.
\<close>

theorem rle_roundtrip:
  "\<exists>m'. rle_decode jsfLoadFromFlash_readcb_linux
            (rle_encode S jsfSaveToFlash_writecb_linux []) (m, p)
          = Some ([], (m', p + length S))
        \<and> map m' [p ..< p + length S] = S
        \<and> (\<forall>a. a < p \<or> p + length S \<le> a \<longrightarrow> m' a = m a)"
proof -
  let ?d = "fold store_inc S (m, p)"
  have "rle_decode jsfLoadFromFlash_readcb_linux
          (rle_encode S jsfSaveToFlash_writecb_linux []) (m, p) = Some ([], ?d)"
  proof -
    have "uint b \<noteq> - 1 \<and> uint b \<noteq> - 256" for b :: byte
      using uint_nonnegative [of b] by linarith
    then have "\<forall>b :: byte. (uint b = - 1) = (uint b = - 256)" by simp
    then show ?thesis
      unfolding rle_decode_def rle_encode_def
      using rle_decode_loop_stream [of "- 1" "- 256" S "(m, p)"]
      by (simp add: rle_stream_def)
  qed
  moreover have "?d = (fst ?d, p + length S)"
    using fold_store_inc_snd [of S "(m, p)"] by (simp add: prod_eq_iff)
  moreover have "map (fst ?d) [p ..< p + length S] = S"
    by (rule fold_store_inc_map)
  moreover have "\<forall>a. a < p \<or> p + length S \<le> a \<longrightarrow> fst ?d a = m a"
    using fold_store_inc_frame [of _ "(m, p)" S] by simp
  ultimately show ?thesis by metis
qed

theorem rle_roundtrip_witness:
  "\<exists>m'. rle_decode jsfLoadFromFlash_readcb_linux
            (rle_encode [0x41, 0x41, 0x41, 0x42] jsfSaveToFlash_writecb_linux [])
            (\<lambda>a. 0, 0)
          = Some ([], (m', 4))
        \<and> map m' [0 ..< 4] = [0x41, 0x41, 0x41, 0x42]
        \<and> (\<forall>a. 4 \<le> a \<longrightarrow> m' a = 0)"
  using rle_roundtrip [of "[0x41, 0x41, 0x41, 0x42]" "\<lambda>a. 0" 0]
  by (simp add: eval_nat_numeral)

section \<open>The documented example\<close>

text \<open>
  Claim C6, as stated: \<open>rle_encode\<close> of the six bytes \<open>41 41 41 41 41 42\<close> (hex) emits
  the five bytes \<open>41 41 03 42 00\<close>. It does not: the last input byte \<open>42\<close> differs from
  the literal before it, so no count byte follows it.
\<close>

theorem rle_encode_example_counterexample:
  "rle_encode [0x41, 0x41, 0x41, 0x41, 0x41, 0x42] jsfSaveToFlash_writecb_linux []
     \<noteq> [0x41, 0x41, 0x03, 0x42, 0x00]"
  by (simp add: rle_encode_def jsfSaveToFlash_writecb_linux_def)

text \<open>
  Claim C6, amended: \<open>rle_encode\<close> of the six bytes \<open>41 41 41 41 41 42\<close> emits exactly the
  four bytes \<open>41 41 03 42\<close>: the first literal, the second literal that opens the escape,
  the count of the three further repeats, and the literal \<open>42\<close> with no count byte.
\<close>

theorem rle_encode_example:
  "rle_encode [0x41, 0x41, 0x41, 0x41, 0x41, 0x42] jsfSaveToFlash_writecb_linux []
     = [0x41, 0x41, 0x03, 0x42]"
  by (simp add: rle_encode_def jsfSaveToFlash_writecb_linux_def)

section \<open>Size of the encoded stream\<close>

lemma rle_encode_scan_stop:
  "c \<le> 255 \<Longrightarrow>
   snd (rle_encode_scan (uint b) xs c) = 255
   \<or> fst (rle_encode_scan (uint b) xs c) = []
   \<or> hd (fst (rle_encode_scan (uint b) xs c)) \<noteq> b"
proof (induction xs arbitrary: c)
  case Nil
  then show ?case by simp
next
  case (Cons x xs)
  show ?case
  proof (cases "x = b \<and> c < 255")
    case True
    then have step: "rle_encode_scan (uint b) (x # xs) c = rle_encode_scan (uint b) xs (c + 1)"
      by simp
    have "c + 1 \<le> 255" using True by simp
    then show ?thesis unfolding step by (rule Cons.IH)
  next
    case False
    then have stop: "rle_encode_scan (uint b) (x # xs) c = (x # xs, c)"
      by (auto simp: word_uint_eq_iff)
    show ?thesis unfolding stop using False Cons.prems by auto
  qed
qed

lemma rle_stream_length_bound:
  "length (rle_stream l data)
     \<le> length data
       + (length data + (if data \<noteq> [] \<and> uint (hd data) = l then 1 else 0)) div 2"
proof (induction "length data" arbitrary: l data rule: less_induct)
  case less
  show ?case
  proof (cases data)
    case Nil
    then show ?thesis by (simp add: rle_stream_Nil)
  next
    case (Cons ch rest)
    let ?cnt = "snd (rle_encode_scan l rest 0)"
    let ?rest' = "fst (rle_encode_scan l rest 0)"
    show ?thesis
    proof (cases "uint ch = l")
      case False
      have len: "length rest < length data" using Cons by simp
      have "length (rle_stream (uint ch) rest) \<le> length rest + (length rest + 1) div 2"
        using less [OF len, of "uint ch"] by (auto split: if_splits)
      then show ?thesis using False Cons by (simp add: rle_stream_Cons)
    next
      case True
      then have lE: "l = uint ch" by simp
      have len: "length ?rest' < length data"
        using rle_encode_scan_length [of l rest 0] Cons by simp
      have spec: "0 \<le> ?cnt" "?cnt \<le> 255" "replicate (nat ?cnt) ch @ ?rest' = rest"
        using rle_encode_scan_spec [of 0 ch rest] by (simp_all add: lE)
      have lrest: "length rest = nat ?cnt + length ?rest'"
        using arg_cong [OF spec(3), of length] by simp
      have stop: "?cnt = 255 \<or> ?rest' = [] \<or> hd ?rest' \<noteq> ch"
        using rle_encode_scan_stop [of 0 ch rest] by (simp add: lE)
      have str: "length (rle_stream l data) = 2 + length (rle_stream (uint ch) ?rest')"
        using Cons by (simp add: rle_stream_Cons lE)
      note ih = less [OF len, of "uint ch"]
      show ?thesis
      proof (cases "?rest' \<noteq> [] \<and> uint (hd ?rest') = uint ch")
        case True
        then have "?cnt = 255" using stop by (auto simp: word_uint_eq_iff)
        then have "length rest = 255 + length ?rest'" using lrest by simp
        moreover have "length (rle_stream (uint ch) ?rest')
                         \<le> length ?rest' + (length ?rest' + 1) div 2"
          using ih True by simp
        ultimately show ?thesis using str Cons lE by simp
      next
        case False
        then have "length (rle_stream (uint ch) ?rest') \<le> length ?rest' + length ?rest' div 2"
          using ih by auto
        moreover have "length ?rest' \<le> length rest" using lrest by simp
        ultimately show ?thesis using str Cons lE by simp
      qed
    qed
  qed
qed

lemma fold_count_callback:
  "fold (\<lambda>ch ns. (Suc (fst ns), callback ch (snd ns))) xs (n, s)
     = (n + length xs, fold callback xs s)"
  by (induction xs arbitrary: n s) simp_all

lemma rle_stream_length_le:
  "length (rle_stream (- 1) heap) \<le> length heap + length heap div 2"
proof (cases heap)
  case Nil
  then show ?thesis by (simp add: rle_stream_Nil)
next
  case (Cons ch rest)
  have "uint ch \<noteq> - 1" using uint_nonnegative [of ch] by linarith
  then show ?thesis using rle_stream_length_bound [of "- 1" heap] Cons by simp
qed

text \<open>
  Claim C10. For every input of \<open>n\<close> bytes and every push callback, \<open>rle_encode\<close> invokes
  the callback at most \<open>n + n div 2\<close> times. The invocations are counted by pairing the
  callback's state with a counter that every invocation increments; the callback's own
  state is what it would be without the counter.
\<close>

theorem rle_encode_callback_count:
  "fst (rle_encode data (\<lambda>ch ns. (Suc (fst ns), callback ch (snd ns))) (0, cbdata))
     \<le> length data + length data div 2
   \<and> snd (rle_encode data (\<lambda>ch ns. (Suc (fst ns), callback ch (snd ns))) (0, cbdata))
     = rle_encode data callback cbdata"
  using rle_stream_length_le [of data]
  by (simp add: rle_encode_def rle_encode_loop_fold [of _ data] fold_count_callback)

section \<open>Cost of a run\<close>

lemma rle_encode_scan_append:
  "fst (rle_encode_scan (uint b) xs c) \<noteq> [] \<or> ys = [] \<or> hd ys \<noteq> b \<Longrightarrow>
   rle_encode_scan (uint b) (xs @ ys) c
     = (fst (rle_encode_scan (uint b) xs c) @ ys, snd (rle_encode_scan (uint b) xs c))"
proof (induction xs arbitrary: c)
  case Nil
  then show ?case by (cases ys) (auto simp: word_uint_eq_iff)
next
  case (Cons x xs)
  show ?case
  proof (cases "x = b \<and> c < 255")
    case True
    then have step: "rle_encode_scan (uint b) (x # zs) c = rle_encode_scan (uint b) zs (c + 1)"
      for zs by simp
    show ?thesis using Cons.prems unfolding append_Cons step by (rule Cons.IH)
  next
    case False
    then have stop: "rle_encode_scan (uint b) (x # zs) c = (x # zs, c)" for zs
      by (auto simp: word_uint_eq_iff)
    show ?thesis unfolding append_Cons stop by simp
  qed
qed

lemma rle_stream_append:
  "xs \<noteq> [] \<Longrightarrow> ys = [] \<or> hd ys \<noteq> last xs \<Longrightarrow>
   rle_stream l (xs @ ys) = rle_stream l xs @ rle_stream (uint (last xs)) ys"
proof (induction "length xs" arbitrary: l xs rule: less_induct)
  case less
  obtain ch rest where xs: "xs = ch # rest" using less.prems(1) by (cases xs) auto
  show ?case
  proof (cases "uint ch = l")
    case False
    show ?thesis
    proof (cases "rest = []")
      case True
      then show ?thesis using False xs by (simp add: rle_stream_Cons rle_stream_Nil)
    next
      case rest: False
      have "rle_stream (uint ch) (rest @ ys)
              = rle_stream (uint ch) rest @ rle_stream (uint (last rest)) ys"
        by (rule less.hyps) (use xs rest less.prems(2) in auto)
      then show ?thesis using False xs rest by (simp add: rle_stream_Cons)
    qed
  next
    case True
    then have lE: "l = uint ch" by simp
    let ?cnt = "snd (rle_encode_scan (uint ch) rest 0)"
    let ?rest' = "fst (rle_encode_scan (uint ch) rest 0)"
    have spec: "replicate (nat ?cnt) ch @ ?rest' = rest"
      using rle_encode_scan_spec [of 0 ch rest] by simp
    have lastxs: "last xs = (if ?rest' = [] then ch else last ?rest')"
    proof -
      have "last xs = last (ch # replicate (nat ?cnt) ch @ ?rest')"
        using xs spec by simp
      then show ?thesis by (cases "nat ?cnt") auto
    qed
    have app: "rle_encode_scan (uint ch) (rest @ ys) 0 = (?rest' @ ys, ?cnt)"
      by (rule rle_encode_scan_append) (use lastxs less.prems(2) in auto)
    have str: "rle_stream l (xs @ ys)
                 = ch # word_of_int ?cnt # rle_stream (uint ch) (?rest' @ ys)"
      using xs app by (simp add: rle_stream_Cons lE)
    have str': "rle_stream l xs = ch # word_of_int ?cnt # rle_stream (uint ch) ?rest'"
      using xs by (simp add: rle_stream_Cons lE)
    show ?thesis
    proof (cases "?rest' = []")
      case True
      then show ?thesis using str str' lastxs by (simp add: rle_stream_Nil)
    next
      case False
      have len: "length ?rest' < length xs"
        using rle_encode_scan_length [of "uint ch" rest 0] xs by simp
      have "rle_stream (uint ch) (?rest' @ ys)
              = rle_stream (uint ch) ?rest' @ rle_stream (uint (last ?rest')) ys"
        by (rule less.hyps [OF len False]) (use lastxs False less.prems(2) in auto)
      then show ?thesis using str str' lastxs False by simp
    qed
  qed
qed

lemma rle_encode_scan_replicate:
  "0 \<le> c \<Longrightarrow> c \<le> 255 \<Longrightarrow>
   rle_encode_scan (uint b) (replicate m b) c
     = (replicate (m - nat (255 - c)) b, min 255 (c + int m))"
proof (induction m arbitrary: c)
  case 0
  then show ?case by simp
next
  case (Suc m)
  show ?case
  proof (cases "c < 255")
    case True
    have "rle_encode_scan (uint b) (replicate (Suc m) b) c
            = rle_encode_scan (uint b) (replicate m b) (c + 1)"
      using True by simp
    also have "\<dots> = (replicate (m - nat (255 - (c + 1))) b, min 255 (c + 1 + int m))"
      by (rule Suc.IH) (use Suc.prems True in simp_all)
    also have "m - nat (255 - (c + 1)) = Suc m - nat (255 - c)"
      using True by linarith
    finally show ?thesis by (simp add: add.commute add.left_commute)
  next
    case False
    then have "c = 255" using Suc.prems by simp
    then show ?thesis by simp
  qed
qed

lemma rle_stream_continue_run:
  "length (rle_stream (uint b) (replicate n b)) = 2 * ((n + 255) div 256)"
proof (induction n rule: less_induct)
  case (less n)
  show ?case
  proof (cases n)
    case 0
    then show ?thesis by (simp add: rle_stream_Nil)
  next
    case (Suc m)
    have scan: "rle_encode_scan (uint b) (replicate m b) 0
                  = (replicate (m - 255) b, min 255 (int m))"
      using rle_encode_scan_replicate [of 0 b m] by simp
    have "length (rle_stream (uint b) (replicate n b))
            = 2 + length (rle_stream (uint b) (replicate (m - 255) b))"
      using Suc scan by (simp add: rle_stream_Cons)
    also have "\<dots> = 2 + 2 * ((m - 255 + 255) div 256)"
      using less [of "m - 255"] Suc by simp
    also have "\<dots> = 2 * ((n + 255) div 256)"
    proof (cases "m \<le> 255")
      case True
      then show ?thesis using Suc by simp
    next
      case False
      then have a: "m - 255 + 255 = m" by simp
      have b: "n + 255 = m + 256" using Suc by simp
      have c: "(m + 256) div 256 = m div 256 + 1" by simp
      show ?thesis unfolding a b c by simp
    qed
    finally show ?thesis .
  qed
qed

lemma rle_stream_new_run:
  "uint b \<noteq> l \<Longrightarrow> 0 < n \<Longrightarrow>
   length (rle_stream l (replicate n b)) = 1 + 2 * ((n + 254) div 256)"
proof -
  assume l: "uint b \<noteq> l" and n: "0 < n"
  then obtain m where m: "n = Suc m" by (cases n) auto
  show ?thesis
    using l rle_stream_continue_run [of b m] by (simp add: m rle_stream_Cons)
qed

lemma rle_stream_fresh:
  "data = [] \<or> (uint (hd data) \<noteq> l \<and> uint (hd data) \<noteq> l') \<Longrightarrow>
   rle_stream l data = rle_stream l' data"
  by (cases data) (auto simp: rle_stream_Cons rle_stream_Nil)

text \<open>
  Claim C2, as stated: a run of \<open>n \<ge> 2\<close> equal bytes costs \<open>2 + ceil (max 0 (n - 2) / 255)\<close>
  output bytes. A run of two bytes \<open>41 41\<close> between the bytes \<open>10\<close> and \<open>20\<close> costs three
  (\<open>41 41 00\<close>: the count byte is emitted even when it is zero), not two.
\<close>

theorem rle_encode_run_cost_counterexample:
  "length (rle_encode ([0x10] @ replicate 2 0x41 @ [0x20]) jsfSaveToFlash_writecb_linux [])
     \<noteq> length (rle_encode [0x10] jsfSaveToFlash_writecb_linux [])
       + (2 + (max 0 (2 - 2) + 254) div 255)
       + length (rle_encode [0x20] jsfSaveToFlash_writecb_linux [])"
proof -
  have run: "replicate 2 (0x41 :: byte) = [0x41, 0x41]" by (simp add: numeral_2_eq_2)
  show ?thesis
    unfolding run by (simp add: rle_encode_def jsfSaveToFlash_writecb_linux_def)
qed

text \<open>
  Claim C2, amended: a run of \<open>n \<ge> 2\<close> bytes \<open>b\<close>, between a prefix that does not end in
  \<open>b\<close> and a suffix that does not start with \<open>b\<close>, adds exactly
  \<open>1 + 2 * ceil ((n - 1) / 256)\<close> bytes to the output: one literal, then a literal and a
  count byte for every further 256 bytes of the run or part thereof. (This is the claim's
  number exactly for \<open>3 \<le> n \<le> 257\<close>.)
\<close>

theorem rle_encode_run_cost:
  assumes n: "2 \<le> n"
    and pre: "pre = [] \<or> last pre \<noteq> b"
    and post: "post = [] \<or> hd post \<noteq> b"
  shows "length (rle_encode (pre @ replicate n b @ post) jsfSaveToFlash_writecb_linux [])
           = length (rle_encode pre jsfSaveToFlash_writecb_linux [])
             + (1 + 2 * ((n + 254) div 256))
             + length (rle_encode post jsfSaveToFlash_writecb_linux [])"
proof -
  have neg: "uint c \<noteq> - 1" for c :: byte using uint_nonnegative [of c] by linarith
  have run_ne: "replicate n b \<noteq> []" using n by auto
  have last_run: "last (replicate n b) = b" using n by (cases n) auto
  have tail: "rle_stream l (replicate n b @ post)
                = rle_stream l (replicate n b) @ rle_stream (- 1) post" for l
  proof -
    have "rle_stream l (replicate n b @ post)
            = rle_stream l (replicate n b) @ rle_stream (uint (last (replicate n b))) post"
      by (rule rle_stream_append [OF run_ne]) (use post last_run in auto)
    moreover have "rle_stream (uint b) post = rle_stream (- 1) post"
      by (rule rle_stream_fresh) (use post neg in \<open>auto simp: word_uint_eq_iff\<close>)
    ultimately show ?thesis using last_run by simp
  qed
  have "length (rle_stream (- 1) (pre @ replicate n b @ post))
          = length (rle_stream (- 1) pre) + (1 + 2 * ((n + 254) div 256))
            + length (rle_stream (- 1) post)"
  proof (cases "pre = []")
    case True
    have "length (rle_stream (- 1) (replicate n b)) = 1 + 2 * ((n + 254) div 256)"
      by (rule rle_stream_new_run) (use n neg in auto)
    then show ?thesis using True tail [of "- 1"] by (simp add: rle_stream_Nil)
  next
    case False
    have hd_run: "hd (replicate n b @ post) = b" using n by (cases n) auto
    have "rle_stream (- 1) (pre @ replicate n b @ post)
            = rle_stream (- 1) pre @ rle_stream (uint (last pre)) (replicate n b @ post)"
      by (rule rle_stream_append [OF False]) (use pre False hd_run in auto)
    moreover have "length (rle_stream (uint (last pre)) (replicate n b))
                     = 1 + 2 * ((n + 254) div 256)"
      by (rule rle_stream_new_run) (use n pre False in \<open>auto simp: word_uint_eq_iff\<close>)
    ultimately show ?thesis using tail [of "uint (last pre)"] by simp
  qed
  then show ?thesis by (simp add: rle_encode_def rle_stream_def)
qed

theorem rle_encode_run_cost_witness:
  "length (rle_encode ([0x10] @ replicate 3 0x41 @ [0x20]) jsfSaveToFlash_writecb_linux [])
     = length (rle_encode [0x10] jsfSaveToFlash_writecb_linux []) + 3
       + length (rle_encode [0x20] jsfSaveToFlash_writecb_linux [])"
  using rle_encode_run_cost [of 3 "[0x10]" "0x41" "[0x20]"] by simp

section \<open>The flash write callback\<close>

lemma ops_jshFlashWrite [simp]: "ops (jshFlashWrite w a fl) = ops fl @ [FlashWrite a w]"
  by (simp add: jshFlashWrite_def)

lemma cells_jshFlashWrite:
  "cells (jshFlashWrite w a fl) x
     = (if unat (x - a) < 4 then cells fl x AND word_byte w (unat (x - a)) else cells fl x)"
  by (simp add: jshFlashWrite_def)

lemma and_not_plus_and: "(x AND NOT m) + (x AND m) = (x :: 'a::len word)"
proof -
  have "((x AND NOT m) AND (x AND m)) + ((x AND NOT m) OR (x AND m)) = (x AND NOT m) + (x AND m)"
    by (rule word_plus_and_or)
  moreover have "(x AND NOT m) AND (x AND m) = 0"
    by (simp add: bit_eq_iff bit_simps)
  moreover have "(x AND NOT m) OR (x AND m) = x"
    by (auto simp add: bit_eq_iff bit_simps)
  ultimately show ?thesis by simp
qed

lemma nat_no_wrap:
  fixes x k N :: nat
  assumes "x < N" and "k < N" and "x \<le> (x + k) mod N"
  shows "(x + k) mod N = x + k"
proof (cases "x + k < N")
  case True
  then show ?thesis by simp
next
  case False
  then have "(x + k) mod N = (x + k - N) mod N" by (simp add: le_mod_geq)
  also have "\<dots> = x + k - N" using assms(1,2) by simp
  finally have "(x + k) mod N < x" using assms(2) False by simp
  then show ?thesis using assms(3) by simp
qed

lemma unat_split_low:
  fixes a m :: u32
  shows "unat (a AND NOT m) + unat (a AND m) = unat a"
proof -
  let ?p = "a AND NOT m" and ?q = "a AND m"
  have "unat (?p + ?q) = (unat ?p + unat ?q) mod 2 ^ LENGTH(32)"
    by (rule unat_word_ariths(1))
  then have eq: "unat a = (unat ?p + unat ?q) mod 2 ^ LENGTH(32)"
    by (simp only: and_not_plus_and)
  have "?p \<le> a" by (rule word_and_le2)
  then have "unat ?p \<le> (unat ?p + unat ?q) mod 2 ^ LENGTH(32)"
    using eq by (simp add: word_le_nat_alt)
  then have "(unat ?p + unat ?q) mod 2 ^ LENGTH(32) = unat ?p + unat ?q"
    by (intro nat_no_wrap unsigned_less)
  then show ?thesis using eq by simp
qed

lemma aligned_word_last:
  fixes a :: u32
  assumes "a AND 3 = 3"
  shows "unat (a AND NOT 3) + 3 = unat a"
  using unat_split_low [of a 3] assms by simp

lemma jsfSaveToFlash_writecb_eq:
  "jsfSaveToFlash_writecb ch (cb, fl) =
     (if wr_address cb < wr_end_address cb then
        (cb\<lparr>wr_data := push_bit 24 (ucast ch) OR drop_bit 8 (wr_data cb),
            wr_address := wr_address cb + 1\<rparr>,
         if wr_address cb AND 3 = 3
         then jshFlashWrite (push_bit 24 (ucast ch) OR drop_bit 8 (wr_data cb))
                (wr_address cb AND NOT 3) fl
         else fl)
      else (cb\<lparr>wr_address := wr_address cb + 1\<rparr>, fl))"
  by (simp add: jsfSaveToFlash_writecb_def Let_def)

text \<open>
  Claim C7, as stated: on every invocation the accumulator becomes
  \<open>(ch << 24) | (old >> 8)\<close> and a word is written exactly when the low two bits of the
  address counter are 3. With the counter at \<open>0x1013\<close> and the end address \<open>0x1010\<close>
  the low two bits are 3, yet the accumulator keeps its value and nothing is written: the
  callback does both only while the counter is below the end address.
\<close>

theorem writecb_invocation_counterexample:
  "wr_address \<lparr>wr_end_address = 0x1010, wr_address = 0x1013, wr_data = 0x11223344\<rparr> AND 3 = 3
   \<and> wr_data (fst (jsfSaveToFlash_writecb 0x55
          (\<lparr>wr_end_address = 0x1010, wr_address = 0x1013, wr_data = 0x11223344\<rparr>,
           erased_flash)))
       \<noteq> push_bit 24 (ucast (0x55 :: byte)) OR drop_bit 8 (0x11223344 :: u32)
   \<and> ops (snd (jsfSaveToFlash_writecb 0x55
          (\<lparr>wr_end_address = 0x1010, wr_address = 0x1013, wr_data = 0x11223344\<rparr>,
           erased_flash))) = ops erased_flash"
  by (simp add: jsfSaveToFlash_writecb_eq)

text \<open>
  Claim C7, amended: on every invocation the address counter increments by exactly 1 and
  the end address is kept. While the counter is below the end address, the accumulator
  becomes \<open>(ch << 24) | (old >> 8)\<close> and one 4-byte write of the new accumulator to the
  counter's word-aligned address is issued exactly when the low two bits of the counter
  are 3. Once the counter is at or beyond the end address, the accumulator is unchanged
  and nothing is written.
\<close>

theorem writecb_invocation:
  "wr_address (fst (jsfSaveToFlash_writecb ch (cb, fl))) = wr_address cb + 1
   \<and> wr_end_address (fst (jsfSaveToFlash_writecb ch (cb, fl))) = wr_end_address cb
   \<and> (wr_address cb < wr_end_address cb \<longrightarrow>
        wr_data (fst (jsfSaveToFlash_writecb ch (cb, fl)))
          = push_bit 24 (ucast ch) OR drop_bit 8 (wr_data cb)
        \<and> snd (jsfSaveToFlash_writecb ch (cb, fl))
          = (if wr_address cb AND 3 = 3
             then jshFlashWrite (push_bit 24 (ucast ch) OR drop_bit 8 (wr_data cb))
                    (wr_address cb AND NOT 3) fl
             else fl)
        \<and> ops (snd (jsfSaveToFlash_writecb ch (cb, fl)))
          = (if wr_address cb AND 3 = 3
             then ops fl @ [FlashWrite (wr_address cb AND NOT 3)
                              (push_bit 24 (ucast ch) OR drop_bit 8 (wr_data cb))]
             else ops fl))
   \<and> (\<not> wr_address cb < wr_end_address cb \<longrightarrow>
        wr_data (fst (jsfSaveToFlash_writecb ch (cb, fl))) = wr_data cb
        \<and> snd (jsfSaveToFlash_writecb ch (cb, fl)) = fl)"
  by (simp add: jsfSaveToFlash_writecb_eq)

theorem writecb_invocation_witness:
  "wr_data (fst (jsfSaveToFlash_writecb 0x55
      (\<lparr>wr_end_address = 0x1010, wr_address = 0x1007, wr_data = 0x11223344\<rparr>, erased_flash)))
     = 0x55112233
   \<and> ops (snd (jsfSaveToFlash_writecb 0x55
      (\<lparr>wr_end_address = 0x1010, wr_address = 0x1007, wr_data = 0x11223344\<rparr>, erased_flash)))
     = [FlashWrite 0x1004 0x55112233]
   \<and> snd (jsfSaveToFlash_writecb 0x55
      (\<lparr>wr_end_address = 0x1010, wr_address = 0x1010, wr_data = 0x11223344\<rparr>, erased_flash))
     = erased_flash"
  using writecb_invocation [where ch = "0x55" and fl = erased_flash
      and cb = "\<lparr>wr_end_address = 0x1010, wr_address = 0x1007, wr_data = 0x11223344\<rparr>"]
    writecb_invocation [where ch = "0x55" and fl = erased_flash
      and cb = "\<lparr>wr_end_address = 0x1010, wr_address = 0x1010, wr_data = 0x11223344\<rparr>"]
  by (simp add: erased_flash_def)

section \<open>Sequences of invocations\<close>

lemma writecb_end [simp]:
  "wr_end_address (fst (jsfSaveToFlash_writecb ch s)) = wr_end_address (fst s)"
  by (cases s) (simp add: jsfSaveToFlash_writecb_eq)

lemma writecb_address [simp]:
  "wr_address (fst (jsfSaveToFlash_writecb ch s)) = wr_address (fst s) + 1"
  by (cases s) (simp add: jsfSaveToFlash_writecb_eq)

lemma writecb_ops:
  "\<exists>xs. ops (snd (jsfSaveToFlash_writecb ch s)) = ops (snd s) @ xs
        \<and> list_all (write_below (wr_end_address (fst s))) xs"
proof (cases s)
  case (Pair cb fl)
  show ?thesis
  proof (cases "wr_address cb < wr_end_address cb \<and> wr_address cb AND 3 = 3")
    case True
    then have "unat (wr_address cb AND NOT 3) + 3 < unat (wr_end_address cb)"
      using aligned_word_last [of "wr_address cb"] by (simp add: word_less_nat_alt)
    then show ?thesis using True Pair
      by (simp add: jsfSaveToFlash_writecb_eq write_below_def)
  next
    case False
    then have "ops (snd (jsfSaveToFlash_writecb ch s)) = ops (snd s) @ []"
      using Pair by (auto simp: jsfSaveToFlash_writecb_eq)
    then show ?thesis by (intro exI [of _ "[]"]) simp
  qed
qed

lemma fold_writecb_end [simp]:
  "wr_end_address (fst (fold jsfSaveToFlash_writecb chs s)) = wr_end_address (fst s)"
  by (induction chs arbitrary: s) simp_all

lemma fold_writecb_address:
  "wr_address (fst (fold jsfSaveToFlash_writecb chs s)) = wr_address (fst s) + of_nat (length chs)"
  by (induction chs arbitrary: s) simp_all

lemma fold_writecb_ops:
  "\<exists>xs. ops (snd (fold jsfSaveToFlash_writecb chs s)) = ops (snd s) @ xs
        \<and> list_all (write_below (wr_end_address (fst s))) xs"
proof (induction chs arbitrary: s)
  case Nil
  show ?case by simp
next
  case (Cons ch chs)
  obtain xs where xs: "ops (snd (jsfSaveToFlash_writecb ch s)) = ops (snd s) @ xs"
      "list_all (write_below (wr_end_address (fst s))) xs"
    using writecb_ops [of ch s] by blast
  obtain ys where ys: "ops (snd (fold jsfSaveToFlash_writecb chs (jsfSaveToFlash_writecb ch s)))
        = ops (snd (jsfSaveToFlash_writecb ch s)) @ ys"
      "list_all (write_below (wr_end_address (fst (jsfSaveToFlash_writecb ch s)))) ys"
    using Cons.IH [of "jsfSaveToFlash_writecb ch s"] by blast
  show ?case using xs ys by (intro exI [of _ "xs @ ys"]) simp
qed

lemma fold_writecb_suppressed:
  "wr_end_address cb \<le> wr_address cb \<Longrightarrow> unat (wr_address cb) + length chs \<le> 2 ^ 32 \<Longrightarrow>
   fold jsfSaveToFlash_writecb chs (cb, fl)
     = (cb\<lparr>wr_address := wr_address cb + of_nat (length chs)\<rparr>, fl)"
proof (induction chs arbitrary: cb)
  case Nil
  show ?case by simp
next
  case (Cons ch chs)
  have step: "jsfSaveToFlash_writecb ch (cb, fl) = (cb\<lparr>wr_address := wr_address cb + 1\<rparr>, fl)"
    using Cons.prems(1) by (simp add: jsfSaveToFlash_writecb_eq not_less)
  show ?case
  proof (cases chs)
    case Nil
    then show ?thesis using step by simp
  next
    case (Cons c cs)
    have "unat (wr_address cb) + unat (1 :: u32) < 2 ^ LENGTH(32)"
      using Cons.prems(2) Cons by simp
    then have "unat (wr_address cb + 1) = unat (wr_address cb) + 1"
      by (simp add: unat_add_lem [THEN iffD1])
    then have "wr_end_address cb \<le> wr_address cb + 1"
        and "unat (wr_address cb + 1) + length chs \<le> 2 ^ 32"
      using Cons.prems by (simp_all add: word_le_nat_alt)
    then have "fold jsfSaveToFlash_writecb chs (cb\<lparr>wr_address := wr_address cb + 1\<rparr>, fl)
                 = (cb\<lparr>wr_address := wr_address cb + 1 + of_nat (length chs)\<rparr>, fl)"
      using Cons.IH [of "cb\<lparr>wr_address := wr_address cb + 1\<rparr>"] by simp
    then show ?thesis using step by (simp add: add.assoc)
  qed
qed

text \<open>
  Claim C8. Start from the cursor \<open>regionStart + 4\<close> with the end address
  \<open>markerAddress\<close> and invoke the write callback on any sequence of bytes. The device's
  history is only extended, and every request added is a write whose four bytes lie below
  \<open>markerAddress\<close>; the cursor has advanced by one per invocation; and an invocation with
  the cursor at or beyond the end address changes nothing but the cursor. (By
  \<open>fold_writecb_suppressed\<close> the same holds for any further run of invocations, up to
  the point where the 32-bit cursor would wrap around.)
\<close>

theorem writecb_never_reaches_marker:
  "take (length (ops fl))
     (ops (snd (fold jsfSaveToFlash_writecb chs
        (\<lparr>wr_end_address = markerAddress, wr_address = regionStart + 4, wr_data = acc\<rparr>, fl))))
     = ops fl
   \<and> list_all (write_below markerAddress)
       (drop (length (ops fl))
          (ops (snd (fold jsfSaveToFlash_writecb chs
             (\<lparr>wr_end_address = markerAddress, wr_address = regionStart + 4, wr_data = acc\<rparr>,
              fl)))))
   \<and> wr_address (fst (fold jsfSaveToFlash_writecb chs
          (\<lparr>wr_end_address = markerAddress, wr_address = regionStart + 4, wr_data = acc\<rparr>, fl)))
       = regionStart + 4 + of_nat (length chs)
   \<and> (\<forall>ch cb fl'. wr_end_address cb = markerAddress \<and> markerAddress \<le> wr_address cb \<longrightarrow>
         jsfSaveToFlash_writecb ch (cb, fl') = (cb\<lparr>wr_address := wr_address cb + 1\<rparr>, fl'))"
proof -
  let ?s = "(\<lparr>wr_end_address = markerAddress, wr_address = regionStart + 4, wr_data = acc\<rparr>, fl)"
  obtain xs where xs: "ops (snd (fold jsfSaveToFlash_writecb chs ?s)) = ops fl @ xs"
      "list_all (write_below markerAddress) xs"
    using fold_writecb_ops [of chs ?s] by auto
  have "wr_address (fst (fold jsfSaveToFlash_writecb chs ?s)) = regionStart + 4 + of_nat (length chs)"
    using fold_writecb_address [of chs ?s] by simp
  moreover have "\<forall>ch cb fl'. wr_end_address cb = markerAddress \<and> markerAddress \<le> wr_address cb \<longrightarrow>
         jsfSaveToFlash_writecb ch (cb, fl') = (cb\<lparr>wr_address := wr_address cb + 1\<rparr>, fl')"
    by (auto simp: jsfSaveToFlash_writecb_eq)
  ultimately show ?thesis using xs by simp
qed

theorem writecb_never_reaches_marker_witness:
  "ops (snd (fold jsfSaveToFlash_writecb [1, 2, 3, 4, 5, 6, 7, 8, 9, 10]
        (\<lparr>wr_end_address = 0x100C, wr_address = 0x1000 + 4, wr_data = 0\<rparr>, erased_flash)))
     = [FlashWrite 0x1004 0x04030201, FlashWrite 0x1008 0x08070605]
   \<and> list_all (write_below 0x100C)
       (drop (length (ops erased_flash))
          (ops (snd (fold jsfSaveToFlash_writecb [1, 2, 3, 4, 5, 6, 7, 8, 9, 10]
             (\<lparr>wr_end_address = 0x100C, wr_address = 0x1000 + 4, wr_data = 0\<rparr>,
              erased_flash)))))
   \<and> wr_address (fst (fold jsfSaveToFlash_writecb [1, 2, 3, 4, 5, 6, 7, 8, 9, 10]
          (\<lparr>wr_end_address = 0x100C, wr_address = 0x1000 + 4, wr_data = 0\<rparr>, erased_flash)))
       = 0x100E
   \<and> jsfSaveToFlash_writecb 9
         (\<lparr>wr_end_address = 0x100C, wr_address = 0x100C, wr_data = 0x08070605\<rparr>,
          jshFlashWrite 0x08070605 0x1008 (jshFlashWrite 0x04030201 0x1004 erased_flash))
       = (\<lparr>wr_end_address = 0x100C, wr_address = 0x100D, wr_data = 0x08070605\<rparr>,
          jshFlashWrite 0x08070605 0x1008 (jshFlashWrite 0x04030201 0x1004 erased_flash))"
proof -
  have run: "fold jsfSaveToFlash_writecb [1, 2, 3, 4, 5, 6, 7, 8, 9, 10]
               (\<lparr>wr_end_address = 0x100C, wr_address = 0x1000 + 4, wr_data = 0\<rparr>, erased_flash)
             = (\<lparr>wr_end_address = 0x100C, wr_address = 0x100E, wr_data = 0x08070605\<rparr>,
                jshFlashWrite 0x08070605 0x1008 (jshFlashWrite 0x04030201 0x1004 erased_flash))"
    by (simp add: jsfSaveToFlash_writecb_eq)
  note inst = writecb_never_reaches_marker [where chs = "[1, 2, 3, 4, 5, 6, 7, 8, 9, 10]"
        and markerAddress = "0x100C" and regionStart = "0x1000" and acc = 0
        and fl = erased_flash]
  have first: "ops (snd (fold jsfSaveToFlash_writecb [1, 2, 3, 4, 5, 6, 7, 8, 9, 10]
        (\<lparr>wr_end_address = 0x100C, wr_address = 0x1000 + 4, wr_data = 0\<rparr>, erased_flash)))
     = [FlashWrite 0x1004 0x04030201, FlashWrite 0x1008 0x08070605]
   \<and> list_all (write_below 0x100C)
       (drop (length (ops erased_flash))
          (ops (snd (fold jsfSaveToFlash_writecb [1, 2, 3, 4, 5, 6, 7, 8, 9, 10]
             (\<lparr>wr_end_address = 0x100C, wr_address = 0x1000 + 4, wr_data = 0\<rparr>,
              erased_flash)))))
   \<and> wr_address (fst (fold jsfSaveToFlash_writecb [1, 2, 3, 4, 5, 6, 7, 8, 9, 10]
          (\<lparr>wr_end_address = 0x100C, wr_address = 0x1000 + 4, wr_data = 0\<rparr>, erased_flash)))
       = 0x100E"
    using inst unfolding run by (simp add: erased_flash_def)
  have "wr_end_address \<lparr>wr_end_address = 0x100C, wr_address = 0x100C,
            wr_data = 0x08070605 :: u32\<rparr> = 0x100C
        \<and> (0x100C :: u32) \<le> wr_address \<lparr>wr_end_address = 0x100C, wr_address = 0x100C,
            wr_data = 0x08070605 :: u32\<rparr>"
    by simp
  then have "jsfSaveToFlash_writecb 9
         (\<lparr>wr_end_address = 0x100C, wr_address = 0x100C, wr_data = 0x08070605\<rparr>,
          jshFlashWrite 0x08070605 0x1008 (jshFlashWrite 0x04030201 0x1004 erased_flash))
       = (\<lparr>wr_end_address = 0x100C, wr_address = 0x100C, wr_data = 0x08070605\<rparr>
            \<lparr>wr_address := wr_address \<lparr>wr_end_address = 0x100C, wr_address = 0x100C,
                wr_data = 0x08070605 :: u32\<rparr> + 1\<rparr>,
          jshFlashWrite 0x08070605 0x1008 (jshFlashWrite 0x04030201 0x1004 erased_flash))"
    using inst by blast
  then have last: "jsfSaveToFlash_writecb 9
         (\<lparr>wr_end_address = 0x100C, wr_address = 0x100C, wr_data = 0x08070605\<rparr>,
          jshFlashWrite 0x08070605 0x1008 (jshFlashWrite 0x04030201 0x1004 erased_flash))
       = (\<lparr>wr_end_address = 0x100C, wr_address = 0x100D, wr_data = 0x08070605\<rparr>,
          jshFlashWrite 0x08070605 0x1008 (jshFlashWrite 0x04030201 0x1004 erased_flash))"
    by simp
  show ?thesis using first last by blast
qed

section \<open>Cells the payload writes leave alone\<close>

lemma writecb_cells_beyond:
  "wr_end_address (fst s) \<le> x \<Longrightarrow>
   cells (snd (jsfSaveToFlash_writecb ch s)) x = cells (snd s) x"
proof (cases s)
  case (Pair cb fl)
  assume x: "wr_end_address (fst s) \<le> x"
  show ?thesis
  proof (cases "wr_address cb < wr_end_address cb \<and> wr_address cb AND 3 = 3")
    case True
    let ?p = "wr_address cb AND NOT 3"
    have p: "unat ?p + 3 < unat x"
      using aligned_word_last [of "wr_address cb"] True x Pair
      by (simp add: word_less_nat_alt word_le_nat_alt)
    then have "?p \<le> x" by (simp add: word_le_nat_alt)
    then have "unat (x - ?p) = unat x - unat ?p" by (rule unat_sub)
    then have "\<not> unat (x - ?p) < 4" using p by simp
    then show ?thesis using True Pair
      by (simp add: jsfSaveToFlash_writecb_eq cells_jshFlashWrite)
  next
    case False
    then show ?thesis using Pair by (auto simp: jsfSaveToFlash_writecb_eq)
  qed
qed

lemma fold_writecb_cells_beyond:
  "wr_end_address (fst s) \<le> x \<Longrightarrow>
   cells (snd (fold jsfSaveToFlash_writecb chs s)) x = cells (snd s) x"
  by (induction chs arbitrary: s) (simp_all add: writecb_cells_beyond)

lemma mask_2_u32: "(mask 2 :: u32) = 3"
  by (simp add: mask_eq_exp_minus_1)

lemma aligned_dvd: "(a :: u32) AND 3 = 0 \<longleftrightarrow> 4 dvd unat a"
  using and_mask_dvd_nat [of 2 a] by (simp add: mask_2_u32)

lemma aligned_floor_mono:
  fixes lo a :: u32
  assumes lo: "lo AND 3 = 0" and le: "lo \<le> a"
  shows "lo \<le> a AND NOT 3"
proof -
  let ?p = "a AND NOT 3"
  have "?p AND 3 = 0" by (simp add: bit_eq_iff bit_simps)
  then obtain i where i: "unat ?p = 4 * i" using aligned_dvd [of ?p] by (auto elim: dvdE)
  obtain j where j: "unat lo = 4 * j" using lo aligned_dvd [of lo] by (auto elim: dvdE)
  have "a AND 3 \<le> 3" by (rule word_and_le1)
  then have r: "unat (a AND 3) \<le> 3" by (simp add: word_le_nat_alt)
  have "unat ?p + unat (a AND 3) = unat a" by (rule unat_split_low)
  moreover have "unat lo \<le> unat a" using le by (simp add: word_le_nat_alt)
  ultimately have "4 * j \<le> 4 * i + 3" using i j r by linarith
  then have "j \<le> i" by linarith
  then show ?thesis using i j by (simp add: word_le_nat_alt)
qed

lemma writecb_cells_before:
  assumes lo: "lo AND 3 = 0" and le: "lo \<le> wr_address (fst s)" and x: "x < lo"
  shows "cells (snd (jsfSaveToFlash_writecb ch s)) x = cells (snd s) x"
proof (cases s)
  case (Pair cb fl)
  show ?thesis
  proof (cases "wr_address cb < wr_end_address cb \<and> wr_address cb AND 3 = 3")
    case True
    let ?p = "wr_address cb AND NOT 3"
    have "lo \<le> ?p" using aligned_floor_mono [OF lo] le Pair by simp
    then have xp: "unat x < unat ?p" using x by (simp add: word_less_nat_alt word_le_nat_alt)
    have "unat ?p + 3 = unat (wr_address cb)"
      using aligned_word_last [of "wr_address cb"] True by simp
    moreover have "unat (wr_address cb) < 2 ^ LENGTH(32)" by (rule unsigned_less)
    ultimately have top: "unat ?p + 3 < 2 ^ 32" by simp
    have "unat (x - ?p) = unat x + 2 ^ 32 - unat ?p"
      using xp by (simp add: unat_sub_if_size word_size)
    then have "\<not> unat (x - ?p) < 4" using top xp by simp
    then show ?thesis using True Pair
      by (simp add: jsfSaveToFlash_writecb_eq cells_jshFlashWrite)
  next
    case False
    then show ?thesis using Pair by (auto simp: jsfSaveToFlash_writecb_eq)
  qed
qed

lemma fold_writecb_cells_before:
  "lo AND 3 = 0 \<Longrightarrow> lo \<le> wr_address (fst s) \<Longrightarrow> x < lo \<Longrightarrow>
   unat (wr_address (fst s)) + length chs \<le> 2 ^ 32 \<Longrightarrow>
   cells (snd (fold jsfSaveToFlash_writecb chs s)) x = cells (snd s) x"
proof (induction chs arbitrary: s)
  case Nil
  show ?case by simp
next
  case (Cons ch chs)
  have step: "cells (snd (jsfSaveToFlash_writecb ch s)) x = cells (snd s) x"
    using Cons.prems(1-3) by (rule writecb_cells_before)
  show ?case
  proof (cases chs)
    case Nil
    then show ?thesis using step by simp
  next
    case (Cons c cs)
    have "unat (wr_address (fst s)) + unat (1 :: u32) < 2 ^ LENGTH(32)"
      using Cons.prems(4) Cons by simp
    then have "unat (wr_address (fst s) + 1) = unat (wr_address (fst s)) + 1"
      by (simp add: unat_add_lem [THEN iffD1])
    then have "lo \<le> wr_address (fst (jsfSaveToFlash_writecb ch s))"
        and "unat (wr_address (fst (jsfSaveToFlash_writecb ch s))) + length chs \<le> 2 ^ 32"
      using Cons.prems(2,4) by (simp_all add: word_le_nat_alt)
    then have "cells (snd (fold jsfSaveToFlash_writecb chs (jsfSaveToFlash_writecb ch s))) x
                 = cells (snd (jsfSaveToFlash_writecb ch s)) x"
      using Cons.IH [of "jsfSaveToFlash_writecb ch s"] Cons.prems(1,3) by simp
    then show ?thesis using step by simp
  qed
qed

lemma aligned_plus_4:
  fixes a :: u32
  assumes "a AND 3 = 0" and "unat a + 4 < 2 ^ 32"
  shows "(a + 4) AND 3 = 0" and "unat (a + 4) = unat a + 4"
proof -
  have "unat a + unat (4 :: u32) < 2 ^ LENGTH(32)" using assms(2) by simp
  then show u: "unat (a + 4) = unat a + 4" by (simp add: unat_add_lem [THEN iffD1])
  have "4 dvd unat a" using assms(1) by (simp add: aligned_dvd)
  then have "4 dvd unat (a + 4)" unfolding u by simp
  then show "(a + 4) AND 3 = 0" by (simp add: aligned_dvd)
qed

section \<open>The erase loop returns\<close>

lemma jsfSaveToFlash_erase_loop_returns:
  assumes "pages_ok b"
  shows "\<exists>fl'. jsfSaveToFlash_erase_loop b pageStart pageLength fl = Some fl'"
proof (induction "unat (FLASH_MAGIC_LOCATION b) - unat (pageStart + pageLength)"
         arbitrary: pageStart pageLength fl rule: less_induct)
  case less
  show ?case
  proof (cases "pageStart + pageLength < FLASH_MAGIC_LOCATION b")
    case False
    then show ?thesis by (subst jsfSaveToFlash_erase_loop.simps) simp
  next
    case True
    show ?thesis
    proof (cases "jshFlashGetPage b (pageStart + pageLength)")
      case None
      then show ?thesis using True by (subst jsfSaveToFlash_erase_loop.simps) simp
    next
      case (Some p)
      obtain ps pl where p: "p = (ps, pl)" by (cases p)
      have adv: "unat (pageStart + pageLength) < unat ps + unat pl"
          and nowrap: "unat ps + unat pl < 2 ^ LENGTH(32)"
        using assms Some p unfolding pages_ok_def by auto
      have "unat (ps + pl) = unat ps + unat pl"
        using nowrap by (simp only: unat_add_lem [THEN iffD1])
      then have "unat (FLASH_MAGIC_LOCATION b) - unat (ps + pl)
                   < unat (FLASH_MAGIC_LOCATION b) - unat (pageStart + pageLength)"
        using adv True by (simp add: word_less_nat_alt)
      then obtain fl' where
        "jsfSaveToFlash_erase_loop b ps pl (jshFlashErasePage b ps fl) = Some fl'"
        using less [of ps pl "jshFlashErasePage b ps fl"] by blast
      then show ?thesis using True Some p
        by (subst jsfSaveToFlash_erase_loop.simps) simp
    qed
  qed
qed

lemma jsfSaveToFlash_erase_returns:
  "pages_ok b \<Longrightarrow> \<exists>fl'. jsfSaveToFlash_erase b fl = Some fl'"
  unfolding jsfSaveToFlash_erase_def
  using jsfSaveToFlash_erase_loop_returns [of b]
  by (cases "jshFlashGetPage b (FLASH_SAVED_CODE_START b)") auto

lemma example_board_pages_ok: "pages_ok example_board"
  unfolding pages_ok_def
proof (intro allI impI)
  fix a pageStart pageLength :: u32
  assume "jshFlashGetPage example_board a = Some (pageStart, pageLength)"
  then have a: "a < 0x2000" and ps: "pageStart = a AND NOT 0x3FF" and pl: "pageLength = 0x400"
    by (auto simp: example_board_def split: if_splits)
  have "a AND 0x3FF \<le> 0x3FF" by (rule word_and_le1)
  then have r: "unat (a AND 0x3FF) \<le> 1023" by (simp add: word_le_nat_alt)
  have sum: "unat pageStart + unat (a AND 0x3FF) = unat a"
    unfolding ps by (rule unat_split_low)
  have "unat a < 8192" using a by (simp add: word_less_nat_alt)
  then show "unat a < unat pageStart + unat pageLength
             \<and> unat pageStart + unat pageLength < 2 ^ 32"
    using r sum pl by simp
qed

lemma example_board_simps [simp]:
  "FLASH_SAVED_CODE_START example_board = 0x1000"
  "FLASH_MAGIC_LOCATION example_board = 0x1010"
  "FLASH_MAGIC example_board = 0xDEADBEEF"
  "jshFlashGetPage example_board a = (if a < 0x2000 then Some (a AND NOT 0x3FF, 0x400) else None)"
  by (simp_all add: example_board_def)

lemma example_board_erase:
  "jsfSaveToFlash_erase example_board fl = Some (jshFlashErasePage example_board 0x1000 fl)"
  by (simp add: jsfSaveToFlash_erase_def jsfSaveToFlash_erase_loop.simps)

lemma example_board_erased [simp]:
  "ops (jshFlashErasePage example_board 0x1000 fl) = ops fl @ [FlashErase 0x1000]"
  "cells (jshFlashErasePage example_board 0x1000 fl) x
     = (if unat (x - 0x1000) < 0x400 then 0xFF else cells fl x)"
  by (simp_all add: jshFlashErasePage_def)

section \<open>Saving when the stream does not fit\<close>

lemma jsfSaveToFlash_write_overflow:
  assumes flush: "fold jsfSaveToFlash_writecb [0, 0, 0]
             (rle_encode heap jsfSaveToFlash_writecb
                (\<lparr>wr_end_address = FLASH_MAGIC_LOCATION b,
                  wr_address = FLASH_SAVED_CODE_START b + 4, wr_data = 0\<rparr>, fl)) = (cb, fl')"
    and over: "FLASH_MAGIC_LOCATION b \<le> wr_address cb"
  shows "jsfSaveToFlash_write b heap fl
           = (TooBig (wr_address cb - 3 - FLASH_SAVED_CODE_START b)
                (FLASH_MAGIC_LOCATION b - FLASH_SAVED_CODE_START b), fl')"
proof -
  let ?s1 = "rle_encode heap jsfSaveToFlash_writecb
                (\<lparr>wr_end_address = FLASH_MAGIC_LOCATION b,
                  wr_address = FLASH_SAVED_CODE_START b + 4, wr_data = 0\<rparr>, fl)"
  have s2: "jsfSaveToFlash_writecb 0 (jsfSaveToFlash_writecb 0 (jsfSaveToFlash_writecb 0 ?s1))
              = (cb, fl')"
    using flush by simp
  have e: "wr_end_address cb = FLASH_MAGIC_LOCATION b"
    using arg_cong [OF flush, of "\<lambda>s. wr_end_address (fst s)"]
    by (simp add: rle_encode_def rle_encode_loop_fold)
  have a: "wr_address cb = wr_address (fst ?s1) + 3"
    using arg_cong [OF s2, of "\<lambda>s. wr_address (fst s)"] by (simp add: add.commute)
  show ?thesis
    unfolding jsfSaveToFlash_write_def Let_def s2 using e a over by simp
qed

text \<open>
  Claim C5. Whenever the write cursor after the three flushing invocations is at or
  beyond \<open>FLASH_MAGIC_LOCATION\<close>, \<open>jsfSaveToFlash\<close> returns with the overflow report
  (bytes needed, bytes available) and with the device as the flush left it: the header
  write and the marker write are not issued. Since the erase, the device has only
  received writes whose bytes lie below the marker address, so no cell at or beyond the
  marker address has changed; and when the region start is word-aligned and the cursor
  cannot wrap around, no cell below \<open>FLASH_SAVED_CODE_START + 4\<close>, the header included,
  has changed either. The save gets as far as the flush on every board whose page table
  lets the erase loop end (\<open>pages_ok\<close>).
\<close>

theorem jsfSaveToFlash_overflow_aborts:
  "(pages_ok b \<longrightarrow> (\<exists>fl. jsfSaveToFlash_erase b fl0 = Some fl)) \<and>
     (\<forall>fl cb fl'.
        jsfSaveToFlash_erase b fl0 = Some fl
        \<and> fold jsfSaveToFlash_writecb [0, 0, 0]
          (rle_encode heap jsfSaveToFlash_writecb
             (\<lparr>wr_end_address = FLASH_MAGIC_LOCATION b,
               wr_address = FLASH_SAVED_CODE_START b + 4, wr_data = 0\<rparr>, fl)) = (cb, fl')
        \<and> FLASH_MAGIC_LOCATION b \<le> wr_address cb \<longrightarrow>
          jsfSaveToFlash b heap fl0
            = Some (TooBig (wr_address cb - 3 - FLASH_SAVED_CODE_START b)
                      (FLASH_MAGIC_LOCATION b - FLASH_SAVED_CODE_START b), fl')
          \<and> take (length (ops fl)) (ops fl') = ops fl
          \<and> list_all (write_below (FLASH_MAGIC_LOCATION b)) (drop (length (ops fl)) (ops fl'))
          \<and> (\<forall>x. FLASH_MAGIC_LOCATION b \<le> x \<longrightarrow> cells fl' x = cells fl x)
          \<and> (FLASH_SAVED_CODE_START b AND 3 = 0
               \<and> unat (FLASH_SAVED_CODE_START b) + 7 + length heap + length heap div 2 \<le> 2 ^ 32
               \<longrightarrow> (\<forall>x. x < FLASH_SAVED_CODE_START b + 4 \<longrightarrow> cells fl' x = cells fl x)))"
proof -
  have returns: "pages_ok b \<longrightarrow> (\<exists>fl. jsfSaveToFlash_erase b fl0 = Some fl)"
    using jsfSaveToFlash_erase_returns [of b fl0] by blast
  have "jsfSaveToFlash b heap fl0
            = Some (TooBig (wr_address cb - 3 - FLASH_SAVED_CODE_START b)
                      (FLASH_MAGIC_LOCATION b - FLASH_SAVED_CODE_START b), fl')
          \<and> take (length (ops fl)) (ops fl') = ops fl
          \<and> list_all (write_below (FLASH_MAGIC_LOCATION b)) (drop (length (ops fl)) (ops fl'))
          \<and> (\<forall>x. FLASH_MAGIC_LOCATION b \<le> x \<longrightarrow> cells fl' x = cells fl x)
          \<and> (FLASH_SAVED_CODE_START b AND 3 = 0
               \<and> unat (FLASH_SAVED_CODE_START b) + 7 + length heap + length heap div 2 \<le> 2 ^ 32
               \<longrightarrow> (\<forall>x. x < FLASH_SAVED_CODE_START b + 4 \<longrightarrow> cells fl' x = cells fl x))"
    if erase: "jsfSaveToFlash_erase b fl0 = Some fl"
      and flush: "fold jsfSaveToFlash_writecb [0, 0, 0]
          (rle_encode heap jsfSaveToFlash_writecb
             (\<lparr>wr_end_address = FLASH_MAGIC_LOCATION b,
               wr_address = FLASH_SAVED_CODE_START b + 4, wr_data = 0\<rparr>, fl)) = (cb, fl')"
      and over: "FLASH_MAGIC_LOCATION b \<le> wr_address cb" for fl cb fl'
  proof -
    let ?s0 = "(\<lparr>wr_end_address = FLASH_MAGIC_LOCATION b,
                   wr_address = FLASH_SAVED_CODE_START b + 4, wr_data = 0\<rparr>, fl)"
    let ?chs = "rle_stream (- 1) heap @ [0, 0, 0]"
    have all: "fold jsfSaveToFlash_writecb ?chs ?s0 = (cb, fl')"
      using flush by (simp add: rle_encode_def rle_encode_loop_fold)
    obtain xs where xs: "ops fl' = ops fl @ xs"
        "list_all (write_below (FLASH_MAGIC_LOCATION b)) xs"
      using fold_writecb_ops [of ?chs ?s0] unfolding all by auto
    have beyond: "\<forall>x. FLASH_MAGIC_LOCATION b \<le> x \<longrightarrow> cells fl' x = cells fl x"
      using fold_writecb_cells_beyond [of ?s0 _ ?chs] unfolding all by simp
    have before: "\<forall>x. x < FLASH_SAVED_CODE_START b + 4 \<longrightarrow> cells fl' x = cells fl x"
      if al: "FLASH_SAVED_CODE_START b AND 3 = 0"
        and nw: "unat (FLASH_SAVED_CODE_START b) + 7 + length heap + length heap div 2 \<le> 2 ^ 32"
    proof (intro allI impI)
      fix x assume x: "x < FLASH_SAVED_CODE_START b + 4"
      have "unat (FLASH_SAVED_CODE_START b) + 4 < 2 ^ 32" using nw by simp
      note lo = aligned_plus_4 [OF al this]
      have "length ?chs \<le> length heap + length heap div 2 + 3"
        using rle_stream_length_le [of heap] by simp
      then have "unat (wr_address (fst ?s0)) + length ?chs \<le> 2 ^ 32"
        using lo(2) nw by simp
      then have "cells (snd (fold jsfSaveToFlash_writecb ?chs ?s0)) x = cells (snd ?s0) x"
        by (intro fold_writecb_cells_before [OF lo(1) _ x]) simp_all
      then show "cells fl' x = cells fl x" unfolding all by simp
    qed
    have "jsfSaveToFlash b heap fl0
            = Some (TooBig (wr_address cb - 3 - FLASH_SAVED_CODE_START b)
                      (FLASH_MAGIC_LOCATION b - FLASH_SAVED_CODE_START b), fl')"
      using jsfSaveToFlash_write_overflow [OF flush over] erase
      by (simp add: jsfSaveToFlash_def)
    then show ?thesis using xs beyond before by simp
  qed
  then show ?thesis using returns by blast
qed

lemma example_flush_9:
  "fold jsfSaveToFlash_writecb [0, 0, 0]
     (rle_encode [1, 2, 3, 4, 5, 6, 7, 8, 9] jsfSaveToFlash_writecb
        (\<lparr>wr_end_address = 0x1010, wr_address = 0x1000 + 4, wr_data = 0\<rparr>, fl))
   = (\<lparr>wr_end_address = 0x1010, wr_address = 0x1010, wr_data = 9\<rparr>,
      jshFlashWrite 9 0x100C (jshFlashWrite 0x08070605 0x1008 (jshFlashWrite 0x04030201 0x1004 fl)))"
  by (simp add: rle_encode_def rle_encode_loop_fold rle_stream_Cons rle_stream_Nil
        jsfSaveToFlash_writecb_eq)

theorem jsfSaveToFlash_overflow_aborts_witness:
  "(\<exists>fl. jsfSaveToFlash_erase example_board erased_flash = Some fl)
   \<and> jsfSaveToFlash example_board [1, 2, 3, 4, 5, 6, 7, 8, 9] erased_flash
     = Some (TooBig 13 16,
         jshFlashWrite 9 0x100C (jshFlashWrite 0x08070605 0x1008 (jshFlashWrite 0x04030201 0x1004
           (jshFlashErasePage example_board 0x1000 erased_flash))))
   \<and> list_all (write_below 0x1010)
        [FlashWrite 0x1004 0x04030201, FlashWrite 0x1008 0x08070605, FlashWrite 0x100C 9]
   \<and> cells (jshFlashWrite 9 0x100C (jshFlashWrite 0x08070605 0x1008
         (jshFlashWrite 0x04030201 0x1004
           (jshFlashErasePage example_board 0x1000 erased_flash)))) 0x1010 = 0xFF
   \<and> cells (jshFlashWrite 9 0x100C (jshFlashWrite 0x08070605 0x1008
         (jshFlashWrite 0x04030201 0x1004
           (jshFlashErasePage example_board 0x1000 erased_flash)))) 0x1000 = 0xFF"
proof -
  let ?fl1 = "jshFlashErasePage example_board 0x1000 erased_flash"
  let ?fl' = "jshFlashWrite 9 0x100C (jshFlashWrite 0x08070605 0x1008
                (jshFlashWrite 0x04030201 0x1004 ?fl1))"
  let ?cb = "\<lparr>wr_end_address = 0x1010, wr_address = 0x1010, wr_data = 9\<rparr>"
  note inst = jsfSaveToFlash_overflow_aborts [of example_board erased_flash
      "[1, 2, 3, 4, 5, 6, 7, 8, 9]"]
  have 0: "\<exists>fl. jsfSaveToFlash_erase example_board erased_flash = Some fl"
    using inst example_board_pages_ok by blast
  have erase: "jsfSaveToFlash_erase example_board erased_flash = Some ?fl1"
    by (rule example_board_erase)
  have flush: "fold jsfSaveToFlash_writecb [0, 0, 0]
          (rle_encode [1, 2, 3, 4, 5, 6, 7, 8, 9] jsfSaveToFlash_writecb
             (\<lparr>wr_end_address = FLASH_MAGIC_LOCATION example_board,
               wr_address = FLASH_SAVED_CODE_START example_board + 4, wr_data = 0\<rparr>, ?fl1))
          = (?cb, ?fl')"
    unfolding example_board_simps by (rule example_flush_9)
  have over: "FLASH_MAGIC_LOCATION example_board \<le> wr_address ?cb" by simp
  note r = inst [THEN conjunct2, rule_format, OF conjI [OF erase conjI [OF flush over]]]
  have 1: "jsfSaveToFlash example_board [1, 2, 3, 4, 5, 6, 7, 8, 9] erased_flash
             = Some (TooBig 13 16, ?fl')"
    using r by simp
  have 2: "list_all (write_below 0x1010)
        [FlashWrite 0x1004 0x04030201, FlashWrite 0x1008 0x08070605, FlashWrite 0x100C 9]"
    using r by (simp add: erased_flash_def)
  have 3: "cells ?fl' 0x1010 = 0xFF"
    using r by (simp add: erased_flash_def)
  have 4: "cells ?fl' 0x1000 = 0xFF"
    using r by (simp add: erased_flash_def)
  show ?thesis using 0 1 2 3 4 by blast
qed

section \<open>The capacity boundary\<close>

lemma fold_checkcb_flash [simp]:
  "snd (fold jsfSaveToFlash_checkcb xs s) = snd s"
  by (induction xs arbitrary: s) (simp_all add: jsfSaveToFlash_checkcb_def Let_def)

lemma unat_plus_of_nat:
  fixes a :: u32
  assumes "unat a + k < 2 ^ 32"
  shows "unat (a + of_nat k) = unat a + k"
proof -
  have "unat (of_nat k :: u32) = k mod 2 ^ LENGTH(32)" by (rule unat_of_nat)
  then have k: "unat (of_nat k :: u32) = k" using assms by simp
  then have "unat a + unat (of_nat k :: u32) < 2 ^ LENGTH(32)" using assms by simp
  then show ?thesis using k by (simp add: unat_add_lem [THEN iffD1])
qed

lemma jsfSaveToFlash_write_fits:
  assumes flush: "fold jsfSaveToFlash_writecb [0, 0, 0]
             (rle_encode heap jsfSaveToFlash_writecb
                (\<lparr>wr_end_address = FLASH_MAGIC_LOCATION b,
                  wr_address = FLASH_SAVED_CODE_START b + 4, wr_data = 0\<rparr>, fl)) = (cb, fl')"
    and fits: "wr_address cb < FLASH_MAGIC_LOCATION b"
  shows "\<exists>errors. jsfSaveToFlash_write b heap fl
           = (Compressed (of_nat (length heap)) (wr_address cb - 3 - FLASH_SAVED_CODE_START b)
                errors,
              jshFlashWrite (FLASH_MAGIC b) (FLASH_MAGIC_LOCATION b)
                (jshFlashWrite (wr_address cb - 3) (FLASH_SAVED_CODE_START b) fl'))"
proof -
  let ?s1 = "rle_encode heap jsfSaveToFlash_writecb
                (\<lparr>wr_end_address = FLASH_MAGIC_LOCATION b,
                  wr_address = FLASH_SAVED_CODE_START b + 4, wr_data = 0\<rparr>, fl)"
  have s2: "jsfSaveToFlash_writecb 0 (jsfSaveToFlash_writecb 0 (jsfSaveToFlash_writecb 0 ?s1))
              = (cb, fl')"
    using flush by simp
  have e: "wr_end_address cb = FLASH_MAGIC_LOCATION b"
    using arg_cong [OF flush, of "\<lambda>s. wr_end_address (fst s)"]
    by (simp add: rle_encode_def rle_encode_loop_fold)
  have a: "wr_address cb = wr_address (fst ?s1) + 3"
    using arg_cong [OF s2, of "\<lambda>s. wr_address (fst s)"] by (simp add: add.commute)
  have nle: "\<not> FLASH_MAGIC_LOCATION b \<le> wr_address cb" using fits by (simp add: not_le)
  show ?thesis
    unfolding jsfSaveToFlash_write_def Let_def s2 using e a nle
    by (simp add: rle_encode_def rle_encode_loop_fold [of _ heap jsfSaveToFlash_checkcb])
qed

text \<open>
  Claim C3, as stated: a save whose compressed payload is exactly
  \<open>markerAddress - regionStart - 4\<close> bytes long succeeds. On the example board that is 12
  bytes; the 12 bytes \<open>01 \<dots> 0C\<close> compress to themselves. The payload is written in full,
  in three words ending just below the marker, but the cursor after the three flushing
  invocations is \<open>0x1013\<close>, not below the marker, so the save takes the overflow branch,
  reports 16 bytes needed of 16 available, and writes neither header nor marker.
\<close>

theorem jsfSaveToFlash_exact_fit:
  "length (rle_encode [1, 2, 3, 4, 5, 6, 7, 8, 9, 10, 11, 12] jsfSaveToFlash_writecb_linux [])
     = unat (FLASH_MAGIC_LOCATION example_board - FLASH_SAVED_CODE_START example_board - 4)
   \<and> jsfSaveToFlash example_board [1, 2, 3, 4, 5, 6, 7, 8, 9, 10, 11, 12] erased_flash
     = Some (TooBig 16 16,
         jshFlashWrite 0x0C0B0A09 0x100C (jshFlashWrite 0x08070605 0x1008
           (jshFlashWrite 0x04030201 0x1004
              (jshFlashErasePage example_board 0x1000 erased_flash))))"
proof -
  have len: "length (rle_encode [1, 2, 3, 4, 5, 6, 7, 8, 9, 10, 11, 12]
               jsfSaveToFlash_writecb_linux []) = 12"
    by (simp add: rle_encode_def rle_encode_loop_fold rle_stream_Cons rle_stream_Nil
          jsfSaveToFlash_writecb_linux_def)
  have flush: "fold jsfSaveToFlash_writecb [0, 0, 0]
     (rle_encode [1, 2, 3, 4, 5, 6, 7, 8, 9, 10, 11, 12] jsfSaveToFlash_writecb
        (\<lparr>wr_end_address = FLASH_MAGIC_LOCATION example_board,
          wr_address = FLASH_SAVED_CODE_START example_board + 4, wr_data = 0\<rparr>,
         jshFlashErasePage example_board 0x1000 erased_flash))
   = (\<lparr>wr_end_address = 0x1010, wr_address = 0x1013, wr_data = 0x0C0B0A09\<rparr>,
      jshFlashWrite 0x0C0B0A09 0x100C (jshFlashWrite 0x08070605 0x1008
        (jshFlashWrite 0x04030201 0x1004 (jshFlashErasePage example_board 0x1000 erased_flash))))"
    by (simp add: rle_encode_def rle_encode_loop_fold rle_stream_Cons rle_stream_Nil
        jsfSaveToFlash_writecb_eq)
  have "jsfSaveToFlash_write example_board [1, 2, 3, 4, 5, 6, 7, 8, 9, 10, 11, 12]
          (jshFlashErasePage example_board 0x1000 erased_flash)
        = (TooBig 16 16,
           jshFlashWrite 0x0C0B0A09 0x100C (jshFlashWrite 0x08070605 0x1008
             (jshFlashWrite 0x04030201 0x1004
                (jshFlashErasePage example_board 0x1000 erased_flash))))"
    using jsfSaveToFlash_write_overflow [OF flush] by simp
  then show ?thesis using len by (simp add: jsfSaveToFlash_def example_board_erase)
qed

text \<open>
  Claim C3, amended: the three flushing bytes count. A save whose compressed payload is
  \<open>n\<close> bytes long succeeds (it reports the compressed size and has written the header and
  then the marker) when \<open>regionStart + n + 7 < markerAddress\<close>, that is for every payload
  of up to \<open>markerAddress - regionStart - 8\<close> bytes; a payload one byte larger, and every
  larger one that does not wrap the 32-bit cursor, takes the overflow branch and leaves
  every cell from the marker address on as the erase left it. The save gets as far as
  the flush on every board whose page table lets the erase loop end (\<open>pages_ok\<close>).
\<close>

theorem jsfSaveToFlash_capacity:
  "(pages_ok b \<longrightarrow> (\<exists>fl. jsfSaveToFlash_erase b fl0 = Some fl)) \<and>
     (\<forall>fl cb fl'.
        jsfSaveToFlash_erase b fl0 = Some fl
        \<and> fold jsfSaveToFlash_writecb [0, 0, 0]
            (rle_encode heap jsfSaveToFlash_writecb
               (\<lparr>wr_end_address = FLASH_MAGIC_LOCATION b,
                 wr_address = FLASH_SAVED_CODE_START b + 4, wr_data = 0\<rparr>, fl)) = (cb, fl')
        \<longrightarrow>
          (unat (FLASH_SAVED_CODE_START b)
             + length (rle_encode heap jsfSaveToFlash_writecb_linux []) + 7
             < unat (FLASH_MAGIC_LOCATION b) \<longrightarrow>
             (\<exists>errors. jsfSaveToFlash b heap fl0
                = Some (Compressed (of_nat (length heap))
                          (of_nat (length (rle_encode heap jsfSaveToFlash_writecb_linux []) + 4))
                          errors,
                    jshFlashWrite (FLASH_MAGIC b) (FLASH_MAGIC_LOCATION b)
                      (jshFlashWrite
                         (FLASH_SAVED_CODE_START b
                            + of_nat (length (rle_encode heap jsfSaveToFlash_writecb_linux [])
                                      + 4))
                         (FLASH_SAVED_CODE_START b) fl'))))
          \<and> (unat (FLASH_MAGIC_LOCATION b)
                 \<le> unat (FLASH_SAVED_CODE_START b)
                   + length (rle_encode heap jsfSaveToFlash_writecb_linux []) + 7
               \<and> unat (FLASH_SAVED_CODE_START b)
                   + length (rle_encode heap jsfSaveToFlash_writecb_linux []) + 7 < 2 ^ 32
               \<longrightarrow>
             jsfSaveToFlash b heap fl0
                = Some (TooBig
                          (of_nat (length (rle_encode heap jsfSaveToFlash_writecb_linux []) + 4))
                          (FLASH_MAGIC_LOCATION b - FLASH_SAVED_CODE_START b), fl')
             \<and> (\<forall>x. FLASH_MAGIC_LOCATION b \<le> x \<longrightarrow> cells fl' x = cells fl x)))"
proof -
  have returns: "pages_ok b \<longrightarrow> (\<exists>fl. jsfSaveToFlash_erase b fl0 = Some fl)"
    using jsfSaveToFlash_erase_returns [of b fl0] by blast
  let ?n = "length (rle_encode heap jsfSaveToFlash_writecb_linux [])"
  let ?chs = "rle_stream (- 1) heap @ [0, 0, 0]"
  have n: "?n = length (rle_stream (- 1) heap)" by (simp add: rle_encode_def rle_stream_def)
  have main: "(unat (FLASH_SAVED_CODE_START b) + ?n + 7 < unat (FLASH_MAGIC_LOCATION b) \<longrightarrow>
             (\<exists>errors. jsfSaveToFlash b heap fl0
                = Some (Compressed (of_nat (length heap)) (of_nat (?n + 4)) errors,
                    jshFlashWrite (FLASH_MAGIC b) (FLASH_MAGIC_LOCATION b)
                      (jshFlashWrite (FLASH_SAVED_CODE_START b + of_nat (?n + 4))
                         (FLASH_SAVED_CODE_START b) fl'))))
          \<and> (unat (FLASH_MAGIC_LOCATION b) \<le> unat (FLASH_SAVED_CODE_START b) + ?n + 7
               \<and> unat (FLASH_SAVED_CODE_START b) + ?n + 7 < 2 ^ 32 \<longrightarrow>
             jsfSaveToFlash b heap fl0
                = Some (TooBig (of_nat (?n + 4))
                          (FLASH_MAGIC_LOCATION b - FLASH_SAVED_CODE_START b), fl')
             \<and> (\<forall>x. FLASH_MAGIC_LOCATION b \<le> x \<longrightarrow> cells fl' x = cells fl x))"
    if erase: "jsfSaveToFlash_erase b fl0 = Some fl"
      and flush: "fold jsfSaveToFlash_writecb [0, 0, 0]
            (rle_encode heap jsfSaveToFlash_writecb
               (\<lparr>wr_end_address = FLASH_MAGIC_LOCATION b,
                 wr_address = FLASH_SAVED_CODE_START b + 4, wr_data = 0\<rparr>, fl)) = (cb, fl')"
    for fl cb fl'
  proof -
    let ?s0 = "(\<lparr>wr_end_address = FLASH_MAGIC_LOCATION b,
                   wr_address = FLASH_SAVED_CODE_START b + 4, wr_data = 0\<rparr>, fl)"
    have all: "fold jsfSaveToFlash_writecb ?chs ?s0 = (cb, fl')"
      using flush by (simp add: rle_encode_def rle_encode_loop_fold)
    have "wr_address (fst (fold jsfSaveToFlash_writecb ?chs ?s0))
            = wr_address (fst ?s0) + of_nat (length ?chs)"
      by (rule fold_writecb_address)
    then have cur: "wr_address cb = FLASH_SAVED_CODE_START b + of_nat (?n + 7)"
      unfolding all by (simp add: n)
    have end3: "wr_address cb - 3 = FLASH_SAVED_CODE_START b + of_nat (?n + 4)"
      unfolding cur by simp
    have needed: "wr_address cb - 3 - FLASH_SAVED_CODE_START b = of_nat (?n + 4)"
      unfolding end3 by simp
    have ucur: "unat (wr_address cb) = unat (FLASH_SAVED_CODE_START b) + ?n + 7"
      if "unat (FLASH_SAVED_CODE_START b) + ?n + 7 < 2 ^ 32"
      unfolding cur using unat_plus_of_nat [of "FLASH_SAVED_CODE_START b" "?n + 7"] that
      by (simp add: add.assoc)
    have top: "unat (FLASH_MAGIC_LOCATION b) < 2 ^ 32"
      using unsigned_less [of "FLASH_MAGIC_LOCATION b", where ?'a = nat] by simp
    have fits: "\<exists>errors. jsfSaveToFlash b heap fl0
                = Some (Compressed (of_nat (length heap)) (of_nat (?n + 4)) errors,
                    jshFlashWrite (FLASH_MAGIC b) (FLASH_MAGIC_LOCATION b)
                      (jshFlashWrite (FLASH_SAVED_CODE_START b + of_nat (?n + 4))
                         (FLASH_SAVED_CODE_START b) fl'))"
      if lt: "unat (FLASH_SAVED_CODE_START b) + ?n + 7 < unat (FLASH_MAGIC_LOCATION b)"
    proof -
      have "wr_address cb < FLASH_MAGIC_LOCATION b"
        using ucur lt top by (simp add: word_less_nat_alt)
      then show ?thesis
        using jsfSaveToFlash_write_fits [OF flush] erase
        by (simp add: jsfSaveToFlash_def end3 needed)
    qed
    have over: "jsfSaveToFlash b heap fl0
                = Some (TooBig (of_nat (?n + 4))
                          (FLASH_MAGIC_LOCATION b - FLASH_SAVED_CODE_START b), fl')
             \<and> (\<forall>x. FLASH_MAGIC_LOCATION b \<le> x \<longrightarrow> cells fl' x = cells fl x)"
      if ge: "unat (FLASH_MAGIC_LOCATION b) \<le> unat (FLASH_SAVED_CODE_START b) + ?n + 7"
        and nw: "unat (FLASH_SAVED_CODE_START b) + ?n + 7 < 2 ^ 32"
    proof -
      have "FLASH_MAGIC_LOCATION b \<le> wr_address cb"
        using ucur [OF nw] ge by (simp add: word_le_nat_alt)
      then have "jsfSaveToFlash_write b heap fl
                   = (TooBig (of_nat (?n + 4))
                        (FLASH_MAGIC_LOCATION b - FLASH_SAVED_CODE_START b), fl')"
        using jsfSaveToFlash_write_overflow [OF flush] by (simp add: needed)
      moreover have "\<forall>x. FLASH_MAGIC_LOCATION b \<le> x \<longrightarrow> cells fl' x = cells fl x"
        using fold_writecb_cells_beyond [of ?s0 _ ?chs] unfolding all by simp
      ultimately show ?thesis using erase by (simp add: jsfSaveToFlash_def)
    qed
    show ?thesis using fits over by blast
  qed
  show ?thesis using returns main by blast
qed

lemma example_flush_8:
  "fold jsfSaveToFlash_writecb [0, 0, 0]
     (rle_encode [1, 2, 3, 4, 5, 6, 7, 8] jsfSaveToFlash_writecb
        (\<lparr>wr_end_address = 0x1010, wr_address = 0x1000 + 4, wr_data = 0\<rparr>, fl))
   = (\<lparr>wr_end_address = 0x1010, wr_address = 0x100F, wr_data = 8\<rparr>,
      jshFlashWrite 0x08070605 0x1008 (jshFlashWrite 0x04030201 0x1004 fl))"
  by (simp add: rle_encode_def rle_encode_loop_fold rle_stream_Cons rle_stream_Nil
        jsfSaveToFlash_writecb_eq)

lemma example_stream_lengths:
  "length (rle_encode [1, 2, 3, 4, 5, 6, 7, 8] jsfSaveToFlash_writecb_linux []) = 8"
  "length (rle_encode [1, 2, 3, 4, 5, 6, 7, 8, 9] jsfSaveToFlash_writecb_linux []) = 9"
  by (simp_all add: rle_encode_def rle_encode_loop_fold rle_stream_Cons rle_stream_Nil
        jsfSaveToFlash_writecb_linux_def)

theorem jsfSaveToFlash_capacity_witness:
  "(\<exists>fl. jsfSaveToFlash_erase example_board erased_flash = Some fl)
   \<and> (\<exists>errors. jsfSaveToFlash example_board [1, 2, 3, 4, 5, 6, 7, 8] erased_flash
      = Some (Compressed 8 12 errors,
          jshFlashWrite 0xDEADBEEF 0x1010 (jshFlashWrite 0x100C 0x1000
            (jshFlashWrite 0x08070605 0x1008 (jshFlashWrite 0x04030201 0x1004
               (jshFlashErasePage example_board 0x1000 erased_flash))))))
   \<and> jsfSaveToFlash example_board [1, 2, 3, 4, 5, 6, 7, 8, 9] erased_flash
      = Some (TooBig 13 16,
          jshFlashWrite 9 0x100C (jshFlashWrite 0x08070605 0x1008
            (jshFlashWrite 0x04030201 0x1004
               (jshFlashErasePage example_board 0x1000 erased_flash))))"
proof -
  let ?fl1 = "jshFlashErasePage example_board 0x1000 erased_flash"
  note c8 = jsfSaveToFlash_capacity [of example_board erased_flash "[1, 2, 3, 4, 5, 6, 7, 8]"]
  note c9 = jsfSaveToFlash_capacity [of example_board erased_flash
      "[1, 2, 3, 4, 5, 6, 7, 8, 9]"]
  have returns: "\<exists>fl. jsfSaveToFlash_erase example_board erased_flash = Some fl"
    using c8 example_board_pages_ok by blast
  have fit: "\<exists>errors. jsfSaveToFlash example_board [1, 2, 3, 4, 5, 6, 7, 8] erased_flash
      = Some (Compressed 8 12 errors,
          jshFlashWrite 0xDEADBEEF 0x1010 (jshFlashWrite 0x100C 0x1000
            (jshFlashWrite 0x08070605 0x1008 (jshFlashWrite 0x04030201 0x1004 ?fl1))))"
    using c8 [THEN conjunct2] unfolding example_board_erase example_board_simps
      example_stream_lengths
    by (simp add: example_flush_8 [simplified])
  have over: "jsfSaveToFlash example_board [1, 2, 3, 4, 5, 6, 7, 8, 9] erased_flash
      = Some (TooBig 13 16,
          jshFlashWrite 9 0x100C (jshFlashWrite 0x08070605 0x1008
            (jshFlashWrite 0x04030201 0x1004 ?fl1)))"
    using c9 [THEN conjunct2] unfolding example_board_erase example_board_simps
      example_stream_lengths
    by (simp add: example_flush_9 [simplified])
  show ?thesis using returns fit over by blast
qed

section \<open>Loading\<close>

text \<open>
  Claim C9. If the presence check fails, \<open>jsfLoadFromFlash\<close> returns with the report
  that there is no code in flash and with RAM and the destination pointer as they were.
\<close>

theorem jsfLoadFromFlash_no_code:
  "\<not> jsfFlashContainsCode b fl \<Longrightarrow> jsfLoadFromFlash b fl basePtr = Some (NoCodeInFlash, basePtr)"
  by (simp add: jsfLoadFromFlash_def)

theorem jsfLoadFromFlash_no_code_witness:
  "\<not> jsfFlashContainsCode example_board erased_flash
   \<and> jsfLoadFromFlash example_board erased_flash (zero_ram, 0)
       = Some (NoCodeInFlash, (zero_ram, 0))"
proof -
  have "\<not> jsfFlashContainsCode example_board erased_flash"
    by (simp add: jsfFlashContainsCode_def jshFlashRead32_def erased_flash_def)
  then show ?thesis using jsfLoadFromFlash_no_code [of example_board erased_flash "(zero_ram, 0)"] by simp
qed

lemma readcb_linux_Nil: "jsfLoadFromFlash_readcb_linux [] = (- 1, [])"
  by (simp add: jsfLoadFromFlash_readcb_linux_def)

lemma readcb_linux_Cons: "jsfLoadFromFlash_readcb_linux (ch # rest) = (uint ch, rest)"
  by (simp add: jsfLoadFromFlash_readcb_linux_def)

lemma readcb_at_end:
  "rd_address cb = rd_end_address cb \<Longrightarrow> jsfLoadFromFlash_readcb fl cb = (- 1, cb)"
  by (simp add: jsfLoadFromFlash_readcb_def)

lemma readcb_before_end:
  assumes len: "unat (rd_address cb) + length (ch # rest) = unat (rd_end_address cb)"
    and cells: "\<forall>i<length (ch # rest). cells fl (rd_address cb + of_nat i) = (ch # rest) ! i"
  shows "jsfLoadFromFlash_readcb fl cb = (uint ch, cb\<lparr>rd_address := rd_address cb + 1\<rparr>)"
    and "unat (rd_address cb + 1) + length rest = unat (rd_end_address cb)"
    and "\<forall>i<length rest. cells fl (rd_address cb + 1 + of_nat i) = rest ! i"
proof -
  have lt: "rd_address cb < rd_end_address cb" using len by (simp add: word_less_nat_alt)
  have "cells fl (rd_address cb + of_nat 0) = (ch # rest) ! 0" using cells by blast
  then have c0: "cells fl (rd_address cb) = ch" by simp
  show "jsfLoadFromFlash_readcb fl cb = (uint ch, cb\<lparr>rd_address := rd_address cb + 1\<rparr>)"
  proof -
    have "\<not> rd_end_address cb \<le> rd_address cb" using lt by (simp add: not_le)
    then show ?thesis using c0 by (simp add: jsfLoadFromFlash_readcb_def jshFlashRead8_def)
  qed
  have "unat (rd_end_address cb) < 2 ^ LENGTH(32)" by (rule unsigned_less)
  then have "unat (rd_address cb) + unat (1 :: u32) < 2 ^ LENGTH(32)" using len by simp
  then have "unat (rd_address cb + 1) = unat (rd_address cb) + 1"
    by (simp add: unat_add_lem [THEN iffD1])
  then show "unat (rd_address cb + 1) + length rest = unat (rd_end_address cb)"
    using len by simp
  show "\<forall>i<length rest. cells fl (rd_address cb + 1 + of_nat i) = rest ! i"
  proof (intro allI impI)
    fix i assume "i < length rest"
    then have "cells fl (rd_address cb + of_nat (Suc i)) = (ch # rest) ! Suc i"
      using cells by (metis Suc_less_eq length_Cons)
    then show "cells fl (rd_address cb + 1 + of_nat i) = rest ! i"
      by (simp add: ac_simps)
  qed
qed

lemma rle_decode_loop_flash:
  assumes "unat (rd_address cb) + length xs = unat (rd_end_address cb)"
    and "\<forall>i<length xs. cells fl (rd_address cb + of_nat i) = xs ! i"
  shows "rle_decode_loop (jsfLoadFromFlash_readcb fl) l cb d
           = map_option (\<lambda>r. (cb\<lparr>rd_address := rd_end_address cb\<rparr>, snd r))
               (rle_decode_loop jsfLoadFromFlash_readcb_linux l xs d)"
  using assms
proof (induction "length xs" arbitrary: xs cb l d rule: less_induct)
  case less
  show ?case
  proof (cases xs)
    case Nil
    then have eq: "rd_address cb = rd_end_address cb"
      using less.prems(1) by (simp add: word_unat_eq_iff)
    have "rle_decode_loop (jsfLoadFromFlash_readcb fl) l cb d = Some (cb, d)"
      by (subst rle_decode_loop.simps) (simp add: readcb_at_end [OF eq])
    moreover have "rle_decode_loop jsfLoadFromFlash_readcb_linux l xs d = Some ([], d)"
      unfolding Nil by (subst rle_decode_loop.simps) (simp add: readcb_linux_Nil)
    moreover have "cb\<lparr>rd_address := rd_end_address cb\<rparr> = cb"
      using eq [symmetric] by simp
    ultimately show ?thesis by simp
  next
    case (Cons ch rest)
    let ?cb1 = "cb\<lparr>rd_address := rd_address cb + 1\<rparr>"
    let ?d1 = "store_inc (word_of_int (uint ch)) d"
    note r1 = readcb_before_end [OF less.prems [unfolded Cons]]
    have pre1: "unat (rd_address ?cb1) + length rest = unat (rd_end_address ?cb1)"
        "\<forall>i<length rest. cells fl (rd_address ?cb1 + of_nat i) = rest ! i"
      using r1(2,3) by simp_all
    have fin1: "?cb1\<lparr>rd_address := rd_end_address ?cb1\<rparr> = cb\<lparr>rd_address := rd_end_address cb\<rparr>"
      by simp
    have nonneg: "\<not> uint ch < 0" by simp
    show ?thesis
    proof (cases "uint ch = l")
      case False
      have "rle_decode_loop (jsfLoadFromFlash_readcb fl) l cb d
              = rle_decode_loop (jsfLoadFromFlash_readcb fl) (uint ch) ?cb1 ?d1"
        by (subst rle_decode_loop.simps) (simp add: r1(1) False Let_def)
      moreover have "rle_decode_loop jsfLoadFromFlash_readcb_linux l xs d
              = rle_decode_loop jsfLoadFromFlash_readcb_linux (uint ch) rest ?d1"
        unfolding Cons
        by (subst rle_decode_loop.simps) (simp add: readcb_linux_Cons False Let_def)
      moreover have "rle_decode_loop (jsfLoadFromFlash_readcb fl) (uint ch) ?cb1 ?d1
              = map_option (\<lambda>r. (?cb1\<lparr>rd_address := rd_end_address ?cb1\<rparr>, snd r))
                  (rle_decode_loop jsfLoadFromFlash_readcb_linux (uint ch) rest ?d1)"
        by (rule less.hyps [OF _ pre1]) (simp add: Cons)
      ultimately show ?thesis unfolding fin1 by simp
    next
      case True
      then have l: "l = uint ch" by simp
      show ?thesis
      proof (cases rest)
        case Nil
        have eq: "rd_address ?cb1 = rd_end_address ?cb1"
          using pre1(1) Nil by (simp add: word_unat_eq_iff)
        let ?d2 = "rle_decode_fill (- 1) (word_of_int (uint ch)) ?d1"
        have "rle_decode_loop (jsfLoadFromFlash_readcb fl) l cb d
                = rle_decode_loop (jsfLoadFromFlash_readcb fl) (uint ch) ?cb1 ?d2"
          by (subst rle_decode_loop.simps)
             (simp add: r1(1) l readcb_at_end [OF eq] Let_def)
        moreover have "rle_decode_loop jsfLoadFromFlash_readcb_linux l xs d
                = rle_decode_loop jsfLoadFromFlash_readcb_linux (uint ch) [] ?d2"
          unfolding Cons Nil
          by (subst rle_decode_loop.simps)
             (simp add: readcb_linux_Cons readcb_linux_Nil l Let_def)
        moreover have "rle_decode_loop (jsfLoadFromFlash_readcb fl) (uint ch) ?cb1 ?d2
                = map_option (\<lambda>r. (?cb1\<lparr>rd_address := rd_end_address ?cb1\<rparr>, snd r))
                    (rle_decode_loop jsfLoadFromFlash_readcb_linux (uint ch) [] ?d2)"
          by (rule less.hyps) (use pre1 Nil Cons in simp_all)
        ultimately show ?thesis unfolding fin1 by simp
      next
        case (Cons c rest')
        let ?cb2 = "?cb1\<lparr>rd_address := rd_address ?cb1 + 1\<rparr>"
        let ?d2 = "rle_decode_fill (uint c) (word_of_int (uint ch)) ?d1"
        note r2 = readcb_before_end [OF pre1 [unfolded Cons]]
        have pre2: "unat (rd_address ?cb2) + length rest' = unat (rd_end_address ?cb2)"
            "\<forall>i<length rest'. cells fl (rd_address ?cb2 + of_nat i) = rest' ! i"
          using r2(2,3) by simp_all
        have fin2: "?cb2\<lparr>rd_address := rd_end_address ?cb2\<rparr>
                      = cb\<lparr>rd_address := rd_end_address cb\<rparr>"
          by simp
        have "rle_decode_loop (jsfLoadFromFlash_readcb fl) l cb d
                = rle_decode_loop (jsfLoadFromFlash_readcb fl) (uint ch) ?cb2 ?d2"
          by (subst rle_decode_loop.simps) (simp add: r1(1) l r2(1) Let_def)
        moreover have "rle_decode_loop jsfLoadFromFlash_readcb_linux l xs d
                = rle_decode_loop jsfLoadFromFlash_readcb_linux (uint ch) rest' ?d2"
          unfolding \<open>xs = ch # rest\<close> Cons
          by (subst rle_decode_loop.simps) (simp add: readcb_linux_Cons l Let_def)
        moreover have "rle_decode_loop (jsfLoadFromFlash_readcb fl) (uint ch) ?cb2 ?d2
                = map_option (\<lambda>r. (?cb2\<lparr>rd_address := rd_end_address ?cb2\<rparr>, snd r))
                    (rle_decode_loop jsfLoadFromFlash_readcb_linux (uint ch) rest' ?d2)"
          by (rule less.hyps [OF _ pre2]) (simp add: Cons \<open>xs = ch # rest\<close>)
        ultimately show ?thesis unfolding fin2 by simp
      qed
    qed
  qed
qed

lemma jsfLoadFromFlash_decodes:
  assumes code: "jsfFlashContainsCode b fl"
    and hdr: "unat (FLASH_SAVED_CODE_START b) + 4 + length xs
                = unat (jshFlashRead32 fl (FLASH_SAVED_CODE_START b))"
    and payload: "\<forall>i<length xs. cells fl (FLASH_SAVED_CODE_START b + 4 + of_nat i) = xs ! i"
  shows "jsfLoadFromFlash b fl d
           = map_option
               (\<lambda>r. (Loading (jshFlashRead32 fl (FLASH_SAVED_CODE_START b)
                                - FLASH_SAVED_CODE_START b), snd r))
               (rle_decode_loop jsfLoadFromFlash_readcb_linux (- 256) xs d)"
proof -
  let ?cb = "\<lparr>rd_end_address = jshFlashRead32 fl (FLASH_SAVED_CODE_START b),
               rd_address = FLASH_SAVED_CODE_START b + 4\<rparr>"
  have "unat (jshFlashRead32 fl (FLASH_SAVED_CODE_START b)) < 2 ^ LENGTH(32)"
    by (rule unsigned_less)
  then have "unat (FLASH_SAVED_CODE_START b) + unat (4 :: u32) < 2 ^ LENGTH(32)"
    using hdr by simp
  then have "unat (FLASH_SAVED_CODE_START b + 4) = unat (FLASH_SAVED_CODE_START b) + 4"
    by (simp add: unat_add_lem [THEN iffD1])
  then have 1: "unat (rd_address ?cb) + length xs = unat (rd_end_address ?cb)"
    using hdr by simp
  have 2: "\<forall>i<length xs. cells fl (rd_address ?cb + of_nat i) = xs ! i"
    using payload by simp
  show ?thesis
    unfolding jsfLoadFromFlash_def rle_decode_def Let_def
      rle_decode_loop_flash [OF 1 2, of "- 256" d]
    using code
    by (cases "rle_decode_loop jsfLoadFromFlash_readcb_linux (- 256) xs d") auto
qed

lemma less_4_cases: "i < (4 :: nat) \<Longrightarrow> i = 0 \<or> i = 1 \<or> i = 2 \<or> i = 3"
  by arith

lemma less_3_cases: "i < (3 :: nat) \<Longrightarrow> i = 0 \<or> i = 1 \<or> i = 2"
  by arith

lemma example_corrupt_flash_code: "jsfFlashContainsCode example_board example_corrupt_flash"
  by (simp add: jsfFlashContainsCode_def jshFlashRead32_def example_corrupt_flash_def
        cells_jshFlashWrite word_byte_def erased_flash_def)

lemma example_corrupt_flash_header:
  "jshFlashRead32 example_corrupt_flash 0x1000 = 0x1007"
  by (simp add: jshFlashRead32_def example_corrupt_flash_def
        cells_jshFlashWrite word_byte_def erased_flash_def)

lemma example_corrupt_flash_payload:
  "i < 3 \<Longrightarrow> cells example_corrupt_flash (0x1000 + 4 + of_nat i) = [7, 7, 0xFF] ! i"
  by (drule less_3_cases)
     (auto simp: example_corrupt_flash_def cells_jshFlashWrite word_byte_def erased_flash_def)

lemma example_corrupt_decode:
  "rle_decode_loop jsfLoadFromFlash_readcb_linux (- 256) [7, 7, 0xFF] d
     = Some ([], fold store_inc (replicate 257 7) d)"
proof -
  have "rle_decode_loop jsfLoadFromFlash_readcb_linux (- 256) [7, 7, 0xFF] d
          = Some ([], rle_decode_fill 255 7 (store_inc 7 (store_inc 7 d)))"
    by (simp add: rle_decode_loop.simps readcb_linux_Cons readcb_linux_Nil Let_def)
  moreover have "replicate 257 (7 :: byte) = 7 # 7 # replicate 255 7"
    by (simp add: replicate_Suc [symmetric] del: replicate_Suc)
  ultimately show ?thesis by (simp add: rle_decode_fill_fold)
qed

text \<open>
  Claim C4, as stated: whatever the stored stream, the load writes at most
  \<open>heapByteLength\<close> bytes into the heap. Take a heap of 6 bytes at address 0 and the
  stored stream \<open>07 07 FF\<close>: the load returns after writing 257 bytes, and the byte at
  address 6, just past the heap, has changed from 0 to 7. \<open>rle_decode\<close> takes no length
  and \<open>jsfLoadFromFlash\<close> passes none.
\<close>

theorem jsfLoadFromFlash_bounded_counterexample:
  "jsfLoadFromFlash example_board example_corrupt_flash (zero_ram, 0) \<noteq> None
   \<and> snd (snd (the (jsfLoadFromFlash example_board example_corrupt_flash (zero_ram, 0)))) = 257
   \<and> fst (snd (the (jsfLoadFromFlash example_board example_corrupt_flash (zero_ram, 0)))) 6 = 7
   \<and> zero_ram 6 = 0"
proof -
  have hdr: "unat (FLASH_SAVED_CODE_START example_board) + 4 + length [7, 7, 0xFF :: byte]
             = unat (jshFlashRead32 example_corrupt_flash (FLASH_SAVED_CODE_START example_board))"
    by (simp add: example_corrupt_flash_header)
  have payload: "\<forall>i<length [7, 7, 0xFF :: byte].
                   cells example_corrupt_flash
                     (FLASH_SAVED_CODE_START example_board + 4 + of_nat i)
                   = [7, 7, 0xFF] ! i"
    using example_corrupt_flash_payload by simp
  let ?d = "fold store_inc (replicate 257 7) (zero_ram, 0)"
  have load: "jsfLoadFromFlash example_board example_corrupt_flash (zero_ram, 0)
                = Some (Loading 7, ?d)"
    using jsfLoadFromFlash_decodes [OF example_corrupt_flash_code hdr payload, of "(zero_ram, 0)"]
    by (simp add: example_corrupt_decode example_corrupt_flash_header)
  have p: "snd ?d = 257"
    using fold_store_inc_snd [of "replicate 257 7" "(zero_ram, 0)"] by simp
  have m: "fst ?d 6 = 7"
    using fold_store_inc_nth [of 6 "replicate 257 7" "(zero_ram, 0)"] by simp
  show ?thesis using load p m by (simp add: zero_ram_def)
qed

text \<open>
  Claim C4, amended: when the marker is present and the stored stream (the bytes from
  \<open>FLASH_SAVED_CODE_START + 4\<close> up to the address in the header) is what \<open>rle_encode\<close>
  emits for a byte sequence \<open>S\<close> no longer than \<open>heapByteLength\<close>, the load returns,
  writes exactly the \<open>length S\<close> bytes of \<open>S\<close> from the heap's base address, and changes
  no address below the base or at or beyond \<open>base + heapByteLength\<close>. The number of
  bytes written is fixed by the stream alone; the decoder checks no bound.
\<close>

theorem jsfLoadFromFlash_writes_snapshot:
  assumes code: "jsfFlashContainsCode b fl"
    and hdr: "unat (FLASH_SAVED_CODE_START b) + 4
                + length (rle_encode S jsfSaveToFlash_writecb_linux [])
                = unat (jshFlashRead32 fl (FLASH_SAVED_CODE_START b))"
    and payload: "\<forall>i<length (rle_encode S jsfSaveToFlash_writecb_linux []).
                    cells fl (FLASH_SAVED_CODE_START b + 4 + of_nat i)
                      = rle_encode S jsfSaveToFlash_writecb_linux [] ! i"
    and fits: "length S \<le> heapByteLength"
  shows "\<exists>m'. jsfLoadFromFlash b fl (m, base)
                = Some (Loading (jshFlashRead32 fl (FLASH_SAVED_CODE_START b)
                                  - FLASH_SAVED_CODE_START b), (m', base + length S))
              \<and> map m' [base ..< base + length S] = S
              \<and> (\<forall>a. a < base \<or> base + heapByteLength \<le> a \<longrightarrow> m' a = m a)"
proof -
  let ?d = "fold store_inc S (m, base)"
  have "uint c \<noteq> - 1 \<and> uint c \<noteq> - 256" for c :: byte
    using uint_nonnegative [of c] by linarith
  then have "\<forall>c :: byte. (uint c = - 1) = (uint c = - 256)" by simp
  then have dec: "rle_decode_loop jsfLoadFromFlash_readcb_linux (- 256)
                    (rle_encode S jsfSaveToFlash_writecb_linux []) (m, base) = Some ([], ?d)"
    using rle_decode_loop_stream [of "- 1" "- 256" S "(m, base)"]
    by (simp add: rle_encode_def rle_stream_def)
  have "jsfLoadFromFlash b fl (m, base)
          = Some (Loading (jshFlashRead32 fl (FLASH_SAVED_CODE_START b)
                            - FLASH_SAVED_CODE_START b), ?d)"
    using jsfLoadFromFlash_decodes [OF code hdr payload, of "(m, base)"] dec by simp
  moreover have "?d = (fst ?d, base + length S)"
    using fold_store_inc_snd [of S "(m, base)"] by (simp add: prod_eq_iff)
  moreover have "map (fst ?d) [base ..< base + length S] = S"
    by (rule fold_store_inc_map)
  moreover have "\<forall>a. a < base \<or> base + heapByteLength \<le> a \<longrightarrow> fst ?d a = m a"
    using fold_store_inc_frame [of _ "(m, base)" S] fits by simp
  ultimately show ?thesis by metis
qed

lemma example_snapshot_flash_code: "jsfFlashContainsCode example_board example_snapshot_flash"
  by (simp add: jsfFlashContainsCode_def jshFlashRead32_def example_snapshot_flash_def
        cells_jshFlashWrite word_byte_def erased_flash_def)

lemma example_snapshot_flash_header:
  "jshFlashRead32 example_snapshot_flash 0x1000 = 0x1008"
  by (simp add: jshFlashRead32_def example_snapshot_flash_def
        cells_jshFlashWrite word_byte_def erased_flash_def)

lemma example_snapshot_flash_payload:
  "i < 4 \<Longrightarrow> cells example_snapshot_flash (0x1000 + 4 + of_nat i) = [7, 7, 3, 9] ! i"
  by (drule less_4_cases)
     (auto simp: example_snapshot_flash_def cells_jshFlashWrite word_byte_def erased_flash_def)

lemma example_snapshot_stream:
  "rle_encode [7, 7, 7, 7, 7, 9] jsfSaveToFlash_writecb_linux [] = [7, 7, 3, 9]"
  by (simp add: rle_encode_def rle_encode_loop_fold rle_stream_Cons rle_stream_Nil
        jsfSaveToFlash_writecb_linux_def)

theorem jsfLoadFromFlash_writes_snapshot_witness:
  "\<exists>m'. jsfLoadFromFlash example_board example_snapshot_flash (zero_ram, 0)
            = Some (Loading 8, (m', 6))
        \<and> map m' [0 ..< 6] = [7, 7, 7, 7, 7, 9]
        \<and> (\<forall>a. 8 \<le> a \<longrightarrow> m' a = 0)"
proof -
  have hdr: "unat (FLASH_SAVED_CODE_START example_board) + 4
               + length (rle_encode [7, 7, 7, 7, 7, 9] jsfSaveToFlash_writecb_linux [])
             = unat (jshFlashRead32 example_snapshot_flash (FLASH_SAVED_CODE_START example_board))"
    by (simp add: example_snapshot_stream example_snapshot_flash_header)
  have payload: "\<forall>i<length (rle_encode [7, 7, 7, 7, 7, 9] jsfSaveToFlash_writecb_linux []).
                   cells example_snapshot_flash
                     (FLASH_SAVED_CODE_START example_board + 4 + of_nat i)
                   = rle_encode [7, 7, 7, 7, 7, 9] jsfSaveToFlash_writecb_linux [] ! i"
    using example_snapshot_flash_payload by (simp add: example_snapshot_stream)
  have fits: "length [7, 7, 7, 7, 7, 9 :: byte] \<le> 8" by simp
  show ?thesis
    using jsfLoadFromFlash_writes_snapshot [OF example_snapshot_flash_code hdr payload fits,
        of zero_ram 0]
    by (simp add: example_snapshot_flash_header zero_ram_def eval_nat_numeral)
qed

end
